theory Spec2Isabelle
  imports Main
begin

section \<open>determineMimeTypes.py: text, integers and regular expressions\<close>

text \<open>
  The script classifies the labels of usage-count files against a table of known MIME
  types. Strings are modelled as \<open>string\<close> over ASCII text: \<open>str.lower\<close>, the
  \<open>\w\<close> class of \<open>re\<close> and \<open>str.strip\<close> are given on the ASCII range, where Python
  and this model agree. A CSV file is modelled by the rows \<open>csv.reader\<close> yields for it
  (a row is a list of fields, a blank line the empty row) and a written report by the
  rows handed to \<open>csv.writer\<close>.
\<close>

definition newline :: char where
  "newline = CHR 0x0A"

definition lower_char :: "char \<Rightarrow> char" where
  "lower_char c =
     (case map_of (zip ''ABCDEFGHIJKLMNOPQRSTUVWXYZ'' ''abcdefghijklmnopqrstuvwxyz'') c of
        None \<Rightarrow> c
      | Some d \<Rightarrow> d)"

text \<open>\<open>str.lower()\<close>.\<close>

definition lower :: "string \<Rightarrow> string" where
  "lower s = map lower_char s"

text \<open>The characters \<open>\w\<close> matches: letters, digits and the underscore.\<close>

definition is_word :: "char \<Rightarrow> bool" where
  "is_word c =
     (c \<in> set ''abcdefghijklmnopqrstuvwxyzABCDEFGHIJKLMNOPQRSTUVWXYZ0123456789_'')"

text \<open>The characters \<open>str.strip()\<close> removes from both ends.\<close>

definition is_space :: "char \<Rightarrow> bool" where
  "is_space c =
     (c \<in> set [CHR '' '', CHR 0x09, CHR 0x0A, CHR 0x0B, CHR 0x0C, CHR 0x0D,
                CHR 0x1C, CHR 0x1D, CHR 0x1E, CHR 0x1F])"

definition strip :: "string \<Rightarrow> string" where
  "strip s = rev (dropWhile is_space (rev (dropWhile is_space s)))"

definition digit_val :: "char \<Rightarrow> nat option" where
  "digit_val c = map_of (zip ''0123456789'' [0, 1, 2, 3, 4, 5, 6, 7, 8, 9]) c"

text \<open>
  The digits of an \<open>int(...)\<close> literal: decimal digits, with single underscores allowed
  between two digits. The flag says whether the previous character was a digit.
\<close>

fun parse_digits :: "nat \<Rightarrow> bool \<Rightarrow> string \<Rightarrow> nat option" where
  "parse_digits acc prev [] = (if prev then Some acc else None)"
| "parse_digits acc prev (c # cs) =
     (if c = CHR ''_'' then (if prev then parse_digits acc False cs else None)
      else (case digit_val c of
              None \<Rightarrow> None
            | Some d \<Rightarrow> parse_digits (10 * acc + d) True cs))"

text \<open>
  The whitespace \<open>int(...)\<close> passes over at both ends of an ASCII string: space, tab,
  line feed, vertical tab, form feed and carriage return. The separators 0x1C to 0x1F,
  which \<open>str.strip()\<close> removes, are not among them.
\<close>

definition is_int_space :: "char \<Rightarrow> bool" where
  "is_int_space c =
     (c \<in> set [CHR '' '', CHR 0x09, CHR 0x0A, CHR 0x0B, CHR 0x0C, CHR 0x0D])"

text \<open>
  The interpreter refuses a decimal literal of more than 4300 digits with ValueError
  (the default of \<open>sys.get_int_max_str_digits()\<close>, which the script does not change).
  Leading zeros count, underscores do not.
\<close>

definition max_str_digits :: nat where
  "max_str_digits = 4300"

definition int_digits :: "string \<Rightarrow> nat option" where
  "int_digits ds =
     (if max_str_digits < length (filter (\<lambda>c. c \<noteq> CHR ''_'') ds) then None
      else parse_digits 0 False ds)"

text \<open>
  \<open>int(s)\<close> on a string: whitespace at both ends is passed over, one sign is allowed,
  and anything else raises ValueError, here \<open>None\<close>. Both readers of a count file parse
  with this function.
\<close>

definition py_int :: "string \<Rightarrow> int option" where
  "py_int s =
     (case rev (dropWhile is_int_space (rev (dropWhile is_int_space s))) of
        [] \<Rightarrow> None
      | c # cs \<Rightarrow>
          if c = CHR ''-'' then map_option (\<lambda>n. - int n) (int_digits cs)
          else if c = CHR ''+'' then map_option int (int_digits cs)
          else map_option int (int_digits (c # cs)))"

text \<open>\<open>str(n)\<close> for an integer.\<close>

fun str_nat :: "nat \<Rightarrow> string" where
  "str_nat n =
     (if n < 10 then [''0123456789'' ! n]
      else str_nat (n div 10) @ [''0123456789'' ! (n mod 10)])"

definition str_int :: "int \<Rightarrow> string" where
  "str_int i = (if i < 0 then CHR ''-'' # str_nat (nat (- i)) else str_nat (nat i))"

text \<open>\<open>sep.join(xs)\<close>.\<close>

fun join :: "string \<Rightarrow> string list \<Rightarrow> string" where
  "join sep [] = []"
| "join sep [x] = x"
| "join sep (x # y # ys) = x @ sep @ join sep (y # ys)"

subsection \<open>The regular expressions the script compiles\<close>

text \<open>
  The loader compiles three forms, \<open>\b<lit>\b\<close>, \<open>.*<lit>$\<close> and \<open>\b<lit>\b\<close>, where
  \<open><lit>\<close> is \<open>re.escape\<close> of a string and so matches that string literally. A
  compiled pattern is the sequence of its atoms and the IGNORECASE flag.
\<close>

datatype atom = WordBoundary | Literal string | AnyStar | EndOfString

datatype pattern = Pattern (atoms: "atom list") (ignorecase: bool)

text \<open>
  A position in the subject is the character before it (if any) and the text from it on.
  \<open>\b\<close> holds where exactly one side is a word character.
\<close>

definition at_boundary :: "char option \<Rightarrow> string \<Rightarrow> bool" where
  "at_boundary prev rest =
     ((case prev of None \<Rightarrow> False | Some c \<Rightarrow> is_word c)
        \<noteq> (case rest of [] \<Rightarrow> False | c # _ \<Rightarrow> is_word c))"

definition literal_here :: "bool \<Rightarrow> string \<Rightarrow> string \<Rightarrow> bool" where
  "literal_here ic l rest =
     (length l \<le> length rest \<and>
      (if ic then lower (take (length l) rest) = lower l else take (length l) rest = l))"

definition prev_after :: "char option \<Rightarrow> string \<Rightarrow> char option" where
  "prev_after prev consumed = (if consumed = [] then prev else Some (last consumed))"

text \<open>
  Whether the atoms match starting at a position. \<open>.*\<close> takes any number of characters
  other than a newline; \<open>$\<close> holds at the end and before a final newline.
\<close>

fun match_atoms :: "bool \<Rightarrow> atom list \<Rightarrow> char option \<Rightarrow> string \<Rightarrow> bool" where
  "match_atoms ic [] prev rest = True"
| "match_atoms ic (WordBoundary # as) prev rest =
     (at_boundary prev rest \<and> match_atoms ic as prev rest)"
| "match_atoms ic (Literal l # as) prev rest =
     (literal_here ic l rest \<and>
      match_atoms ic as (prev_after prev (take (length l) rest)) (drop (length l) rest))"
| "match_atoms ic (AnyStar # as) prev rest =
     list_ex (\<lambda>k. match_atoms ic as (prev_after prev (take k rest)) (drop k rest))
       [0..<Suc (length (takeWhile (\<lambda>c. c \<noteq> newline) rest))]"
| "match_atoms ic (EndOfString # as) prev rest =
     ((rest = [] \<or> rest = [newline]) \<and> match_atoms ic as prev rest)"

text \<open>\<open>pattern.search(s)\<close>: a match starting at some position of \<open>s\<close>.\<close>

fun search_from :: "pattern \<Rightarrow> char option \<Rightarrow> string \<Rightarrow> bool" where
  "search_from p prev [] = match_atoms (ignorecase p) (atoms p) prev []"
| "search_from p prev (c # cs) =
     (match_atoms (ignorecase p) (atoms p) prev (c # cs) \<or> search_from p (Some c) cs)"

definition search :: "pattern \<Rightarrow> string \<Rightarrow> bool" where
  "search p s = search_from p None s"

section \<open>Dictionaries in insertion order\<close>

text \<open>
  A Python dict keeps its keys in the order of their first insertion; assigning to a key
  that is present keeps its place. \<open>map_of\<close> is the lookup.
\<close>

fun dict_set :: "'k \<Rightarrow> 'v \<Rightarrow> ('k \<times> 'v) list \<Rightarrow> ('k \<times> 'v) list" where
  "dict_set k v [] = [(k, v)]"
| "dict_set k v ((k', v') # d) =
     (if k' = k then (k, v) # d else (k', v') # dict_set k v d)"

text \<open>\<open>d[k].append(x)\<close>, the list under a missing key being empty (defaultdict(list)).\<close>

definition dict_append :: "'k \<Rightarrow> 'v \<Rightarrow> ('k \<times> 'v list) list \<Rightarrow> ('k \<times> 'v list) list" where
  "dict_append k x d =
     dict_set k ((case map_of d k of None \<Rightarrow> [] | Some xs \<Rightarrow> xs) @ [x]) d"

text \<open>\<open>d[k] += n\<close> on a defaultdict(int).\<close>

definition dict_add :: "'k \<Rightarrow> int \<Rightarrow> ('k \<times> int) list \<Rightarrow> ('k \<times> int) list" where
  "dict_add k n d = dict_set k ((case map_of d k of None \<Rightarrow> 0 | Some m \<Rightarrow> m) + n) d"

section \<open>The process state\<close>

text \<open>
  The three module-level tables, the working directory (its entries in the order
  \<open>iterdir\<close> lists them, each with the rows of its CSV content) and what was printed.
\<close>

record world =
  ext_to_mime :: "(string \<times> string) list"
  mime_patterns :: "(string \<times> pattern list) list"
  valid_mimes :: "string set"
  files :: "(string \<times> string list list) list"
  console :: "string list"

datatype exn = FileNotFoundError | TypeError | KeyError | AttributeError | IndexError

datatype 'a outcome = Return 'a | Raise exn

definition print :: "string \<Rightarrow> world \<Rightarrow> world" where
  "print line w = w\<lparr>console := console w @ [line]\<rparr>"

text \<open>\<open>open(name, 'w')\<close> and the rows written: the file is replaced or created.\<close>

definition write_file :: "string \<Rightarrow> string list list \<Rightarrow> world \<Rightarrow> world" where
  "write_file name rows w = w\<lparr>files := dict_set name rows (files w)\<rparr>"

section \<open>load_mime_mapping\<close>

text \<open>
  One row of the mapping file, lines 16 to 34: both fields stripped and lower-cased, the
  tables updated, three patterns appended to the MIME type's list.
\<close>

definition load_row :: "string \<Rightarrow> string \<Rightarrow> world \<Rightarrow> world" where
  "load_row ext_field mime_field w =
     (let ext = lower (strip ext_field);
          mime = lower (strip mime_field);
          w1 = w\<lparr>ext_to_mime := dict_set ext mime (ext_to_mime w)\<rparr>;
          w2 = w1\<lparr>valid_mimes := insert mime (valid_mimes w1)\<rparr>;
          w3 = (if map_of (mime_patterns w2) mime = None
                then w2\<lparr>mime_patterns := dict_set mime [] (mime_patterns w2)\<rparr> else w2);
          w4 = w3\<lparr>mime_patterns :=
                 dict_append mime (Pattern [WordBoundary, Literal ext, WordBoundary] True)
                   (mime_patterns w3)\<rparr>;
          w5 = w4\<lparr>mime_patterns :=
                 dict_append mime (Pattern [AnyStar, Literal ext, EndOfString] True)
                   (mime_patterns w4)\<rparr>
      in w5\<lparr>mime_patterns :=
              dict_append mime (Pattern [WordBoundary, Literal mime, WordBoundary] True)
                (mime_patterns w5)\<rparr>)"

text \<open>
  \<open>csv.DictReader\<close>: the first row gives the field names; \<open>row[key]\<close> is the field
  under the last column of that name. A name that is no column raises KeyError; a row too
  short for the column holds \<open>None\<close> there, and \<open>None.strip()\<close> raises AttributeError.
\<close>

fun last_index :: "'a \<Rightarrow> 'a list \<Rightarrow> nat option" where
  "last_index k [] = None"
| "last_index k (x # xs) =
     (case last_index k xs of
        Some i \<Rightarrow> Some (Suc i)
      | None \<Rightarrow> if x = k then Some 0 else None)"

definition dict_field :: "string list \<Rightarrow> string list \<Rightarrow> string \<Rightarrow> string outcome" where
  "dict_field fieldnames row key =
     (case last_index key fieldnames of
        None \<Rightarrow> Raise KeyError
      | Some i \<Rightarrow> if i < length row then Return (row ! i) else Raise AttributeError)"

text \<open>The loop over the rows; DictReader passes over empty rows.\<close>

fun load_rows :: "string list \<Rightarrow> string list list \<Rightarrow> world \<Rightarrow> unit outcome \<times> world" where
  "load_rows fieldnames [] w = (Return (), w)"
| "load_rows fieldnames (row # rows) w =
     (if row = [] then load_rows fieldnames rows w
      else (case dict_field fieldnames row ''extension'' of
              Raise e \<Rightarrow> (Raise e, w)
            | Return ext_field \<Rightarrow>
                (case dict_field fieldnames row ''mime_type'' of
                   Raise e \<Rightarrow> (Raise e, w)
                 | Return mime_field \<Rightarrow>
                     load_rows fieldnames rows (load_row ext_field mime_field w))))"

definition load_mime_mapping :: "string \<Rightarrow> world \<Rightarrow> unit outcome \<times> world" where
  "load_mime_mapping mapping_path w =
     (case map_of (files w) mapping_path of
        None \<Rightarrow> (Raise FileNotFoundError, w)
      | Some [] \<Rightarrow> (Return (), w)
      | Some (fieldnames # rows) \<Rightarrow> load_rows fieldnames rows w)"

section \<open>find_file, normalize_entry, match_mime\<close>

text \<open>
  The first directory entry whose name equals the expected one up to case; \<open>None\<close> when
  there is none.
\<close>

fun find_in :: "string \<Rightarrow> (string \<times> string list list) list \<Rightarrow> string option" where
  "find_in pat [] = None"
| "find_in pat ((name, content) # entries) =
     (if lower name = lower pat then Some name else find_in pat entries)"

definition find_file :: "string \<Rightarrow> world \<Rightarrow> string option" where
  "find_file pat w = find_in pat (files w)"

definition normalize_entry :: "string \<Rightarrow> string" where
  "normalize_entry entry = lower entry"

text \<open>
  The loop over \<open>mime_patterns.items()\<close>: the first MIME type, in insertion order, one of
  whose patterns is found in the entry.
\<close>

fun match_items :: "(string \<times> pattern list) list \<Rightarrow> string \<Rightarrow> string option" where
  "match_items [] entry = None"
| "match_items ((mime_type, patterns) # items) entry =
     (if list_ex (\<lambda>p. search p entry) patterns then Some mime_type
      else match_items items entry)"

definition match_mime :: "world \<Rightarrow> string \<Rightarrow> string option" where
  "match_mime w entry = match_items (mime_patterns w) entry"

section \<open>extract_env\<close>

text \<open>
  \<open>re.search(r'prod-(.*?)-mime-types-counts\.csv', filename)\<close>: at the leftmost position
  where \<open>prod-\<close> stands and the rest can match, the group is the shortest run of
  characters other than a newline that is followed by the suffix.
\<close>

fun starts_with :: "string \<Rightarrow> string \<Rightarrow> bool" where
  "starts_with [] s = True"
| "starts_with (p # ps) [] = False"
| "starts_with (p # ps) (c # cs) = (p = c \<and> starts_with ps cs)"

fun lazy_until :: "string \<Rightarrow> string \<Rightarrow> string option" where
  "lazy_until suffix [] = (if starts_with suffix [] then Some [] else None)"
| "lazy_until suffix (c # cs) =
     (if starts_with suffix (c # cs) then Some []
      else if c = newline then None
      else map_option ((#) c) (lazy_until suffix cs))"

fun search_env :: "string \<Rightarrow> string option" where
  "search_env [] = None"
| "search_env (c # cs) =
     (if starts_with ''prod-'' (c # cs)
      then (case lazy_until ''-mime-types-counts.csv'' (drop 5 (c # cs)) of
              Some env \<Rightarrow> Some env
            | None \<Rightarrow> search_env cs)
      else search_env cs)"

definition extract_env :: "string \<Rightarrow> string option" where
  "extract_env filename = search_env filename"

section \<open>sum_counts\<close>

text \<open>
  \<open>int(row[1])\<close> under \<open>except (IndexError, ValueError)\<close>: \<open>None\<close> when the row has no
  second field or the field is no integer.
\<close>

definition count_of :: "string list \<Rightarrow> int option" where
  "count_of row = (if length row < 2 then None else py_int (row ! 1))"

fun sum_rows :: "int \<Rightarrow> string list list \<Rightarrow> int" where
  "sum_rows total_sum [] = total_sum"
| "sum_rows total_sum (row # rows) =
     (case count_of row of
        None \<Rightarrow> sum_rows total_sum rows
      | Some n \<Rightarrow> sum_rows (total_sum + n) rows)"

text \<open>
  \<open>open(None)\<close> raises TypeError. The first row is passed over by \<open>next(reader, None)\<close>.
\<close>

definition sum_counts :: "string option \<Rightarrow> world \<Rightarrow> int outcome" where
  "sum_counts filename w =
     (case filename of
        None \<Rightarrow> Raise TypeError
      | Some f \<Rightarrow>
          (case map_of (files w) f of
             None \<Rightarrow> Raise FileNotFoundError
           | Some rows \<Rightarrow> Return (sum_rows 0 (tl rows))))"

section \<open>process_counts and the three reports\<close>

record buckets =
  valid_mime_aggregate :: "(string \<times> int) list"
  invalid_mime_aggregate :: "(string \<times> int) list"
  potential_mime_aggregate :: "(string \<times> int) list"
  valid_entry_map :: "(string \<times> string list) list"
  invalid_entry_map :: "(string \<times> string list) list"
  potential_entry_map :: "(string \<times> string list) list"
  valid_mime_sum :: int
  invalid_mime_sum :: int
  possible_mime_sum :: int

definition empty_buckets :: buckets where
  "empty_buckets =
     \<lparr>valid_mime_aggregate = [], invalid_mime_aggregate = [],
      potential_mime_aggregate = [], valid_entry_map = [], invalid_entry_map = [],
      potential_entry_map = [], valid_mime_sum = 0, invalid_mime_sum = 0,
      possible_mime_sum = 0\<rparr>"

definition add_valid :: "string \<Rightarrow> int \<Rightarrow> buckets \<Rightarrow> buckets" where
  "add_valid entry count b =
     b\<lparr>valid_mime_aggregate := dict_add entry count (valid_mime_aggregate b),
       valid_entry_map := dict_append entry entry (valid_entry_map b),
       valid_mime_sum := valid_mime_sum b + count\<rparr>"

definition add_potential :: "string \<Rightarrow> string \<Rightarrow> int \<Rightarrow> buckets \<Rightarrow> buckets" where
  "add_potential matched_mime entry count b =
     b\<lparr>potential_mime_aggregate := dict_add matched_mime count (potential_mime_aggregate b),
       potential_entry_map := dict_append matched_mime entry (potential_entry_map b),
       possible_mime_sum := possible_mime_sum b + count\<rparr>"

definition add_invalid :: "string \<Rightarrow> int \<Rightarrow> buckets \<Rightarrow> buckets" where
  "add_invalid entry count b =
     b\<lparr>invalid_mime_aggregate := dict_add entry count (invalid_mime_aggregate b),
       invalid_entry_map := dict_append entry entry (invalid_entry_map b),
       invalid_mime_sum := invalid_mime_sum b + count\<rparr>"

text \<open>
  The body of the loop, lines 74 to 97. \<open>row[0]\<close> stands outside the \<open>try\<close>, so the
  empty row raises IndexError. The \<open>elif\<close> tests the truth value of what match_mime
  returns: \<open>None\<close> and the empty string both lead to the \<open>else\<close> branch.
\<close>

definition process_row :: "world \<Rightarrow> string list \<Rightarrow> buckets \<Rightarrow> buckets outcome" where
  "process_row w row b =
     (case row of
        [] \<Rightarrow> Raise IndexError
      | entry # _ \<Rightarrow>
          (case count_of row of
             None \<Rightarrow> Return b
           | Some count \<Rightarrow>
               if entry \<in> valid_mimes w then Return (add_valid entry count b)
               else (case match_mime w (normalize_entry entry) of
                       None \<Rightarrow> Return (add_invalid entry count b)
                     | Some matched_mime \<Rightarrow>
                         if matched_mime \<noteq> []
                         then Return (add_potential matched_mime entry count b)
                         else Return (add_invalid entry count b))))"

fun process_rows :: "world \<Rightarrow> string list list \<Rightarrow> buckets \<Rightarrow> buckets outcome" where
  "process_rows w [] b = Return b"
| "process_rows w (row # rows) b =
     (case process_row w row b of
        Raise e \<Rightarrow> Raise e
      | Return b' \<Rightarrow> process_rows w rows b')"

text \<open>An f-string prints \<open>None\<close> as the text None.\<close>

definition env_text :: "string option \<Rightarrow> string" where
  "env_text env = (case env of None \<Rightarrow> ''None'' | Some e \<Rightarrow> e)"

definition lookup_list :: "('k \<times> 'v list) list \<Rightarrow> 'k \<Rightarrow> 'v list" where
  "lookup_list d k = (case map_of d k of None \<Rightarrow> [] | Some xs \<Rightarrow> xs)"

definition write_potential_mime_types ::
  "string \<Rightarrow> (string \<times> int) list \<Rightarrow> (string \<times> string list) list \<Rightarrow> int \<Rightarrow> string option
     \<Rightarrow> world \<Rightarrow> world" where
  "write_potential_mime_types output_file aggregate entry_map total_sum env w =
     print (''Sum of counts for possible mime type matches for '' @ env_text env @ '': ''
              @ str_int total_sum @ [newline])
       (write_file output_file
          ([[''Matched Mime Types'', ''Count'', ''Potential Mime Types'']]
             @ map (\<lambda>(mime, total_count).
                      [mime, str_int total_count, join '', '' (lookup_list entry_map mime)])
                 aggregate
             @ [[''Total Count'', str_int total_sum, []]]) w)"

definition write_invalid_mime_types ::
  "string \<Rightarrow> (string \<times> int) list \<Rightarrow> int \<Rightarrow> string option \<Rightarrow> world \<Rightarrow> world" where
  "write_invalid_mime_types output_file aggregate total_sum env w =
     print (''Sum of counts for invalid mime type matches for '' @ env_text env @ '': ''
              @ str_int total_sum @ [newline])
       (write_file output_file
          ([[''Invalid Mime Types'', ''Count'']]
             @ map (\<lambda>(mime, total_count). [mime, str_int total_count]) aggregate
             @ [[''Total Invalid Count'', str_int total_sum]]) w)"

definition write_valid_mime_types ::
  "string \<Rightarrow> (string \<times> int) list \<Rightarrow> int \<Rightarrow> string option \<Rightarrow> world \<Rightarrow> world" where
  "write_valid_mime_types output_file aggregate total_sum env w =
     print (''Sum of counts for valid mime type matches for '' @ env_text env @ '': ''
              @ str_int total_sum @ [newline])
       (write_file output_file
          ([[''Valid Mime Types'', ''Count'']]
             @ map (\<lambda>(mime, total_count). [mime, str_int total_count]) aggregate
             @ [[''Total Valid Count'', str_int total_sum]]) w)"

text \<open>The three writes that end process_counts, lines 99 to 102, in their order.\<close>

definition write_reports ::
  "string \<Rightarrow> string \<Rightarrow> string \<Rightarrow> string option \<Rightarrow> buckets \<Rightarrow> world \<Rightarrow> world" where
  "write_reports potential_outfile valid_outfile invalid_outfile env b w =
     write_invalid_mime_types invalid_outfile (invalid_mime_aggregate b)
         (invalid_mime_sum b) env
       (write_valid_mime_types valid_outfile (valid_mime_aggregate b) (valid_mime_sum b) env
          (write_potential_mime_types potential_outfile (potential_mime_aggregate b)
             (potential_entry_map b) (possible_mime_sum b) env w))"

definition process_counts ::
  "string \<Rightarrow> string \<Rightarrow> string \<Rightarrow> string \<Rightarrow> world \<Rightarrow> unit outcome \<times> world" where
  "process_counts input_file potential_outfile valid_outfile invalid_outfile w =
     (let env = extract_env input_file in
      case map_of (files w) input_file of
        None \<Rightarrow> (Raise FileNotFoundError, w)
      | Some rows \<Rightarrow>
          (case process_rows w (tl rows) empty_buckets of
             Raise e \<Rightarrow> (Raise e, w)
           | Return b \<Rightarrow>
               (Return (),
                write_reports potential_outfile valid_outfile invalid_outfile env b w)))"

section \<open>main\<close>

definition files_envs :: "(string \<times> string \<times> string \<times> string) list" where
  "files_envs =
     [(''prod-us-only-mime-types-counts.csv'', ''mime-type-mapping-US.csv'',
       ''valid-mime-type-mapping-US.csv'', ''invalid-mime-type-mapping-US.csv''),
      (''prod-eu-only-mime-types-counts.csv'', ''mime-type-mapping-EU.csv'',
       ''valid-mime-type-mapping-EU.csv'', ''invalid-mime-type-mapping-EU.csv''),
      (''prod-global-mime-types-counts.csv'', ''mime-type-mapping-Global.csv'',
       ''valid-mime-type-mapping-Global.csv'', ''invalid-mime-type-mapping-Global.csv'')]"

text \<open>
  The loop of lines 190 to 196; \<open>find_file infile w\<close> is the source's
  \<open>actual_file\<close>. sum_counts is called on it before the test of it, so an exception of
  sum_counts ends the loop there.
\<close>

fun main_loop ::
  "(string \<times> string \<times> string \<times> string) list \<Rightarrow> int \<Rightarrow> world \<Rightarrow> int outcome \<times> world" where
  "main_loop [] total_count w = (Return total_count, w)"
| "main_loop ((infile, potential_outfile, valid_outfile, invalid_outfile) # rest)
      total_count w =
     (case sum_counts (find_file infile w) w of
        Raise e \<Rightarrow> (Raise e, w)
      | Return n \<Rightarrow>
          (case find_file infile w of
             Some actual_file \<Rightarrow>
               (case process_counts actual_file potential_outfile valid_outfile
                       invalid_outfile w of
                  (Raise e, w') \<Rightarrow> (Raise e, w')
                | (Return u, w') \<Rightarrow> main_loop rest (total_count + n) w')
           | None \<Rightarrow>
               main_loop rest (total_count + n)
                 (print (''File not found: '' @ infile) w)))"

definition main :: "world \<Rightarrow> unit outcome \<times> world" where
  "main w =
     (case load_mime_mapping ''mimeTypes.csv'' w of
        (Raise e, w') \<Rightarrow> (Raise e, w')
      | (Return u, w') \<Rightarrow>
          (case main_loop files_envs 0 w' of
             (Raise e, w'') \<Rightarrow> (Raise e, w'')
           | (Return total_count, w'') \<Rightarrow>
               (Return (),
                print (''Total count across all files: '' @ str_int total_count @ [newline])
                  w'')))"

text \<open>A run of the script: the tables start empty, nothing has been printed.\<close>

definition initial_world :: "(string \<times> string list list) list \<Rightarrow> world" where
  "initial_world dir =
     \<lparr>ext_to_mime = [], mime_patterns = [], valid_mimes = {}, files = dir, console = []\<rparr>"

definition run :: "(string \<times> string list list) list \<Rightarrow> unit outcome \<times> world" where
  "run dir = main (initial_world dir)"

section \<open>Notions used in the statements\<close>

text \<open>The entries listed under the keys of an entry map.\<close>

definition listed :: "('k \<times> 'v list) list \<Rightarrow> 'v set" where
  "listed d = (\<Union>(k, es) \<in> set d. set es)"

text \<open>
  No key of the invalid bucket and no entry listed in the invalid or the potential bucket is
  a valid MIME type.
\<close>

definition apart :: "world \<Rightarrow> buckets \<Rightarrow> bool" where
  "apart w b =
     (fst ` set (invalid_mime_aggregate b) \<inter> valid_mimes w = {}
      \<and> fst ` set (invalid_entry_map b) \<inter> valid_mimes w = {}
      \<and> listed (invalid_entry_map b) \<inter> valid_mimes w = {}
      \<and> listed (potential_entry_map b) \<inter> valid_mimes w = {})"


text \<open>A sequence of file writes, in order.\<close>

definition apply_writes ::
  "(string \<times> string list list) list \<Rightarrow> (string \<times> string list list) list
     \<Rightarrow> (string \<times> string list list) list" where
  "apply_writes ws dir = foldl (\<lambda>d (name, rows). dict_set name rows d) dir ws"

text \<open>The report names of a list of environments, in the order they are written.\<close>

definition outs :: "(string \<times> string \<times> string \<times> string) list \<Rightarrow> string list" where
  "outs envs = concat (map (\<lambda>(infile, p, v, i). [p, v, i]) envs)"

text \<open>
  A name no read of the script can resolve to: it is not the mapping file and it equals
  none of the three expected count-file names up to case.
\<close>

definition safe :: "string \<Rightarrow> bool" where
  "safe name =
     (name \<noteq> ''mimeTypes.csv'' \<and> lower name \<notin> lower ` set (map fst files_envs))"

text \<open>Two directories in which every read of the script finds the same.\<close>

definition agree ::
  "(string \<times> string list list) list \<Rightarrow> (string \<times> string list list) list \<Rightarrow> bool" where
  "agree d d' =
     (map_of d ''mimeTypes.csv'' = map_of d' ''mimeTypes.csv''
      \<and> (\<forall>pat \<in> set (map fst files_envs). find_in pat d = find_in pat d')
      \<and> (\<forall>name. lower name \<in> lower ` set (map fst files_envs)
            \<longrightarrow> map_of d name = map_of d' name))"

text \<open>The count of a row, zero when it has none.\<close>

definition count_or_zero :: "string list \<Rightarrow> int" where
  "count_or_zero row = (case count_of row of None \<Rightarrow> 0 | Some n \<Rightarrow> n)"

text \<open>A row that names the entry and has a count that parses.\<close>

definition counted :: "string \<Rightarrow> string list \<Rightarrow> bool" where
  "counted e row = (case row of [] \<Rightarrow> False | entry # _ \<Rightarrow> entry = e \<and> count_of row \<noteq> None)"

text \<open>The sum of the counts of the rows of a file that name the entry.\<close>

definition entry_total :: "string \<Rightarrow> string list list \<Rightarrow> int" where
  "entry_total e rows = sum_list (map count_or_zero (filter (counted e) rows))"

section \<open>Properties\<close>

subsection \<open>Counts\<close>

lemma int_rejects_separator:
  "py_int [CHR 0x1C, CHR ''7''] = None"
  "py_int [CHR ''7'', CHR 0x1F] = None"
  "py_int [CHR 0x0B, CHR ''7'', CHR 0x0C] = Some 7"
  by code_simp+

lemma int_digits_limit:
  "max_str_digits < length (filter (\<lambda>c. c \<noteq> CHR ''_'') ds) \<Longrightarrow> int_digits ds = None"
  by (simp add: int_digits_def)

subsection \<open>Dictionaries\<close>

lemma map_of_dict_set:
  "map_of (dict_set k v d) k' = (if k' = k then Some v else map_of d k')"
  by (induction d) auto

lemma lookup_list_dict_append:
  "lookup_list (dict_append k x d) k' =
     (if k' = k then lookup_list d k @ [x] else lookup_list d k')"
  by (simp add: lookup_list_def dict_append_def map_of_dict_set)

lemma lookup_list_dict_set:
  "lookup_list (dict_set k v d) k' = (if k' = k then v else lookup_list d k')"
  by (simp add: lookup_list_def map_of_dict_set)

subsection \<open>The loader\<close>

lemma lookup_list_load_row:
  "lookup_list (mime_patterns (load_row e m w)) mime =
     lookup_list (mime_patterns w) mime @
       (if lower (strip m) = mime
        then [Pattern [WordBoundary, Literal (lower (strip e)), WordBoundary] True,
              Pattern [AnyStar, Literal (lower (strip e)), EndOfString] True,
              Pattern [WordBoundary, Literal mime, WordBoundary] True]
        else [])"
  by (auto simp: load_row_def Let_def lookup_list_dict_append lookup_list_dict_set)
     (auto simp: lookup_list_def)

lemma valid_mimes_load_row:
  "valid_mimes (load_row e m w) = insert (lower (strip m)) (valid_mimes w)"
  by (simp add: load_row_def Let_def)

lemma dict_field_ext:
  "dict_field [''extension'', ''mime_type''] [e, m] ''extension'' = Return e"
  by (simp add: dict_field_def)

lemma dict_field_mime:
  "dict_field [''extension'', ''mime_type''] [e, m] ''mime_type'' = Return m"
  by (simp add: dict_field_def)

text \<open>
  Claim C6. Loading a mapping file with the columns \<open>extension\<close> and \<open>mime_type\<close> and the
  rows \<open>pairs\<close> returns normally; every row adds its stripped and lower-cased MIME type
  to the valid set; and the pattern list of every MIME type grows by exactly three
  case-insensitive patterns per row of that MIME type, in the order of the rows and, for
  each row, in the order whole-word extension, ends-with-extension, whole-word MIME type.
\<close>

theorem load_rows_patterns:
  "\<exists>w'. load_rows [''extension'', ''mime_type''] (map (\<lambda>(e, m). [e, m]) pairs) w
           = (Return (), w')
     \<and> valid_mimes w' = valid_mimes w \<union> (\<lambda>(e, m). lower (strip m)) ` set pairs
     \<and> (\<forall>mime. lookup_list (mime_patterns w') mime =
           lookup_list (mime_patterns w) mime @
           concat (map (\<lambda>(e, m).
                     if lower (strip m) = mime
                     then [Pattern [WordBoundary, Literal (lower (strip e)), WordBoundary] True,
                           Pattern [AnyStar, Literal (lower (strip e)), EndOfString] True,
                           Pattern [WordBoundary, Literal mime, WordBoundary] True]
                     else []) pairs))"
proof (induction pairs arbitrary: w)
  case Nil
  then show ?case by simp
next
  case (Cons p pairs)
  obtain e m where p: "p = (e, m)" by (cases p)
  from Cons.IH [of "load_row e m w"] obtain w' where
    w': "load_rows [''extension'', ''mime_type''] (map (\<lambda>(e, m). [e, m]) pairs)
           (load_row e m w) = (Return (), w')"
    and v: "valid_mimes w' =
              valid_mimes (load_row e m w) \<union> (\<lambda>(e, m). lower (strip m)) ` set pairs"
    and l: "\<forall>mime. lookup_list (mime_patterns w') mime =
           lookup_list (mime_patterns (load_row e m w)) mime @
           concat (map (\<lambda>(e, m).
                     if lower (strip m) = mime
                     then [Pattern [WordBoundary, Literal (lower (strip e)), WordBoundary] True,
                           Pattern [AnyStar, Literal (lower (strip e)), EndOfString] True,
                           Pattern [WordBoundary, Literal mime, WordBoundary] True]
                     else []) pairs)"
    by blast
  have "load_rows [''extension'', ''mime_type''] (map (\<lambda>(e, m). [e, m]) (p # pairs)) w
          = (Return (), w')"
    using w' by (simp add: p dict_field_ext dict_field_mime)
  moreover have "valid_mimes w' =
      valid_mimes w \<union> (\<lambda>(e, m). lower (strip m)) ` set (p # pairs)"
    using v by (simp add: p valid_mimes_load_row)
  moreover have "\<forall>mime. lookup_list (mime_patterns w') mime =
           lookup_list (mime_patterns w) mime @
           concat (map (\<lambda>(e, m).
                     if lower (strip m) = mime
                     then [Pattern [WordBoundary, Literal (lower (strip e)), WordBoundary] True,
                           Pattern [AnyStar, Literal (lower (strip e)), EndOfString] True,
                           Pattern [WordBoundary, Literal mime, WordBoundary] True]
                     else []) (p # pairs))"
    using l by (simp add: p lookup_list_load_row)
  ultimately show ?case by blast
qed

subsection \<open>extract_env\<close>

lemma starts_with_iff: "starts_with p s = (\<exists>t. s = p @ t)"
  by (induction p s rule: starts_with.induct) auto

lemma lazy_until_Some:
  "lazy_until suf s = Some g \<Longrightarrow> (\<exists>t. s = g @ suf @ t) \<and> newline \<notin> set g"
proof (induction s arbitrary: g)
  case Nil
  then show ?case by (auto simp: starts_with_iff split: if_splits)
next
  case (Cons c cs)
  show ?case
  proof (cases "starts_with suf (c # cs)")
    case True
    with Cons.prems show ?thesis by (auto simp: starts_with_iff)
  next
    case False
    with Cons.prems obtain g' where g': "lazy_until suf cs = Some g'" "g = c # g'" "c \<noteq> newline"
      by (auto split: if_splits)
    from Cons.IH [OF g'(1)] g'(2,3) show ?thesis by auto
  qed
qed

lemma lazy_until_prefix: "starts_with suf s \<Longrightarrow> lazy_until suf s = Some []"
  by (cases s) auto

lemma lazy_until_None:
  "lazy_until suf s = None \<Longrightarrow> s = g @ suf @ t \<Longrightarrow> newline \<in> set g"
proof (induction s arbitrary: g)
  case Nil
  then show ?case by (auto simp: starts_with_iff split: if_splits)
next
  case (Cons c cs)
  show ?case
  proof (cases g)
    case Nil
    with Cons.prems(2) have "starts_with suf (c # cs)" unfolding starts_with_iff by auto
    from lazy_until_prefix [OF this] Cons.prems(1) show ?thesis by simp
  next
    case (Cons d g')
    with Cons.prems Cons.IH [of g'] show ?thesis
      by (auto split: if_splits)
  qed
qed

lemma search_env_Some:
  "search_env s = Some env \<Longrightarrow>
     \<exists>pre post. s = pre @ ''prod-'' @ env @ ''-mime-types-counts.csv'' @ post \<and> newline \<notin> set env"
proof (induction s)
  case Nil
  then show ?case by simp
next
  case (Cons c cs)
  show ?case
  proof (cases "starts_with ''prod-'' (c # cs) \<and> lazy_until ''-mime-types-counts.csv'' (drop 5 (c # cs)) = Some env")
    case True
    then obtain t where t: "c # cs = ''prod-'' @ t" by (auto simp: starts_with_iff)
    then have "drop 5 (c # cs) = t" by simp
    with True lazy_until_Some [of "''-mime-types-counts.csv''" t env]
    obtain post where "t = env @ ''-mime-types-counts.csv'' @ post" "newline \<notin> set env" by auto
    with t have "c # cs = [] @ ''prod-'' @ env @ ''-mime-types-counts.csv'' @ post \<and> newline \<notin> set env"
      by simp
    then show ?thesis by blast
  next
    case False
    with Cons.prems have "search_env cs = Some env"
      by (auto simp del: starts_with.simps drop_Suc_Cons split: if_splits option.splits)
    from Cons.IH [OF this] obtain pre post where
      "cs = pre @ ''prod-'' @ env @ ''-mime-types-counts.csv'' @ post" "newline \<notin> set env" by blast
    then have "c # cs = (c # pre) @ ''prod-'' @ env @ ''-mime-types-counts.csv'' @ post \<and> newline \<notin> set env"
      by simp
    then show ?thesis by blast
  qed
qed

lemma search_env_None:
  "search_env s = None \<Longrightarrow> s = pre @ ''prod-'' @ env @ ''-mime-types-counts.csv'' @ post \<Longrightarrow>
     newline \<in> set env"
proof (induction s arbitrary: pre)
  case Nil
  then show ?case by simp
next
  case (Cons c cs)
  show ?case
  proof (cases pre)
    case Nil
    with Cons.prems(2) have s: "c # cs = ''prod-'' @ (env @ ''-mime-types-counts.csv'' @ post)" by simp
    then have sw: "starts_with ''prod-'' (c # cs)" unfolding starts_with_iff by blast
    from s have d: "drop 5 (c # cs) = env @ ''-mime-types-counts.csv'' @ post" by simp
    from Cons.prems(1) sw have "lazy_until ''-mime-types-counts.csv'' (drop 5 (c # cs)) = None"
      by (auto simp del: starts_with.simps drop_Suc_Cons split: option.splits)
    with d lazy_until_None show ?thesis by metis
  next
    case (Cons d pre')
    with Cons.prems(2) have cs: "cs = pre' @ ''prod-'' @ env @ ''-mime-types-counts.csv'' @ post" by simp
    from Cons.prems(1) have "search_env cs = None"
      by (auto simp del: starts_with.simps drop_Suc_Cons split: if_splits option.splits)
    from Cons.IH [OF this cs] show ?thesis .
  qed
qed

lemma lazy_until_exact:
  "newline \<notin> set g \<Longrightarrow> (\<forall>k < length g. \<not> starts_with suf (drop k (g @ suf))) \<Longrightarrow>
     lazy_until suf (g @ suf) = Some g"
proof (induction g)
  case Nil
  then show ?case by (cases suf) (auto simp: starts_with_iff)
next
  case (Cons c g)
  have a: "\<not> starts_with suf ((c # g) @ suf)" using Cons.prems(2) [rule_format, of 0] by simp
  have b: "\<forall>k < length g. \<not> starts_with suf (drop k (g @ suf))"
  proof (intro allI impI)
    fix k assume "k < length g"
    then show "\<not> starts_with suf (drop k (g @ suf))"
      using Cons.prems(2) [rule_format, of "Suc k"] by simp
  qed
  from Cons.prems(1) have c: "c \<noteq> newline" "newline \<notin> set g" by auto
  from Cons.IH [OF c(2) b] a c(1) show ?case by simp
qed

lemma suffix_dot: "j < 18 \<Longrightarrow> ''-mime-types-counts.csv'' ! j \<noteq> CHR ''.''"
proof -
  assume j: "j < 18"
  have "CHR ''.'' \<notin> set (take 18 ''-mime-types-counts.csv'')" by simp
  moreover from j have "take 18 ''-mime-types-counts.csv'' ! j \<in> set (take 18 ''-mime-types-counts.csv'')"
    by (intro nth_mem) simp
  moreover from j have "take 18 ''-mime-types-counts.csv'' ! j = ''-mime-types-counts.csv'' ! j"
    by (rule nth_take)
  ultimately show ?thesis by metis
qed

lemma no_early_suffix:
  assumes "CHR ''.'' \<notin> set g" "k < length g"
  shows "\<not> starts_with ''-mime-types-counts.csv'' (drop k (g @ ''-mime-types-counts.csv''))"
proof
  assume "starts_with ''-mime-types-counts.csv'' (drop k (g @ ''-mime-types-counts.csv''))"
  then obtain t where t: "drop k (g @ ''-mime-types-counts.csv'') = ''-mime-types-counts.csv'' @ t"
    unfolding starts_with_iff by blast
  have "(drop k (g @ ''-mime-types-counts.csv'')) ! 18 = CHR ''.''"
    unfolding t by simp
  moreover have "k + 18 < length (g @ ''-mime-types-counts.csv'')" using assms(2) by simp
  moreover have "drop k (g @ ''-mime-types-counts.csv'') ! 18 = (g @ ''-mime-types-counts.csv'') ! (k + 18)"
    using assms(2) by (intro nth_drop) simp
  ultimately have e: "(g @ ''-mime-types-counts.csv'') ! (k + 18) = CHR ''.''"
    by simp
  show False
  proof (cases "k + 18 < length g")
    case True
    with e have "g ! (k + 18) = CHR ''.''" by (simp add: nth_append)
    with True assms(1) show False using nth_mem by metis
  next
    case False
    with e have "''-mime-types-counts.csv'' ! (k + 18 - length g) = CHR ''.''"
      by (simp add: nth_append)
    moreover have "k + 18 - length g < 18" using assms(2) False by arith
    ultimately show False using suffix_dot by blast
  qed
qed

lemma extract_env_roundtrip:
  assumes "newline \<notin> set env" "CHR ''.'' \<notin> set env"
  shows "extract_env (''prod-'' @ env @ ''-mime-types-counts.csv'') = Some env"
proof -
  have "lazy_until ''-mime-types-counts.csv'' (env @ ''-mime-types-counts.csv'') = Some env"
    using lazy_until_exact [OF assms(1)] no_early_suffix [OF assms(2)] by blast
  then show ?thesis by (simp add: extract_env_def)
qed

text \<open>
  Claim C8. extract_env of \<open>prod-eu-only-mime-types-counts.csv\<close> is \<open>eu-only\<close>. In
  general: the file name \<open>prod-<ENV>-mime-types-counts.csv\<close> yields \<open>ENV\<close> (for a name
  without a newline or a dot); what extract_env returns stands in the file name between
  \<open>prod-\<close> and \<open>-mime-types-counts.csv\<close>; and it returns \<open>None\<close> exactly when the file
  name has no such part.
\<close>

theorem extract_env_spec:
  "extract_env ''prod-eu-only-mime-types-counts.csv'' = Some ''eu-only''
   \<and> (newline \<notin> set env \<and> CHR ''.'' \<notin> set env \<longrightarrow>
        extract_env (''prod-'' @ env @ ''-mime-types-counts.csv'') = Some env)
   \<and> (extract_env filename = Some env \<longrightarrow>
        (\<exists>pre post. filename = pre @ ''prod-'' @ env @ ''-mime-types-counts.csv'' @ post
           \<and> newline \<notin> set env))
   \<and> (extract_env filename = None \<longleftrightarrow>
        \<not> (\<exists>pre e post. filename = pre @ ''prod-'' @ e @ ''-mime-types-counts.csv'' @ post
              \<and> newline \<notin> set e))"
proof (intro conjI impI)
  show "extract_env ''prod-eu-only-mime-types-counts.csv'' = Some ''eu-only''"
    by (simp add: extract_env_def newline_def)
next
  assume "newline \<notin> set env \<and> CHR ''.'' \<notin> set env"
  then show "extract_env (''prod-'' @ env @ ''-mime-types-counts.csv'') = Some env"
    using extract_env_roundtrip by blast
next
  assume "extract_env filename = Some env"
  then show "\<exists>pre post. filename = pre @ ''prod-'' @ env @ ''-mime-types-counts.csv'' @ post
           \<and> newline \<notin> set env"
    using search_env_Some by (simp add: extract_env_def)
next
  show "extract_env filename = None \<longleftrightarrow>
        \<not> (\<exists>pre e post. filename = pre @ ''prod-'' @ e @ ''-mime-types-counts.csv'' @ post
              \<and> newline \<notin> set e)"
  proof
    assume "extract_env filename = None"
    then show "\<not> (\<exists>pre e post. filename = pre @ ''prod-'' @ e @ ''-mime-types-counts.csv'' @ post
              \<and> newline \<notin> set e)"
      using search_env_None unfolding extract_env_def by blast
  next
    assume n: "\<not> (\<exists>pre e post. filename = pre @ ''prod-'' @ e @ ''-mime-types-counts.csv'' @ post
              \<and> newline \<notin> set e)"
    show "extract_env filename = None"
    proof (cases "extract_env filename")
      case None then show ?thesis .
    next
      case (Some e)
      with search_env_Some [of filename e] n show ?thesis
        unfolding extract_env_def by blast
    qed
  qed
qed

theorem extract_env_spec_witness:
  "extract_env ''prod-us-only-mime-types-counts.csv'' = Some ''us-only''
   \<and> (\<exists>pre post. ''prod-us-only-mime-types-counts.csv''
          = pre @ ''prod-'' @ ''us-only'' @ ''-mime-types-counts.csv'' @ post
          \<and> newline \<notin> set ''us-only'')
   \<and> \<not> (\<exists>pre e post. ''mimeTypes.csv'' = pre @ ''prod-'' @ e @ ''-mime-types-counts.csv'' @ post
              \<and> newline \<notin> set e)"
proof -
  have a: "newline \<notin> set ''us-only'' \<and> CHR ''.'' \<notin> set ''us-only''"
    by (simp add: newline_def)
  have b: "extract_env ''mimeTypes.csv'' = None"
    by (simp add: extract_env_def)
  note t = extract_env_spec [of "''us-only''" "''prod-us-only-mime-types-counts.csv''"]
  note u = extract_env_spec [of "''us-only''" "''mimeTypes.csv''"]
  from t a have c: "extract_env (''prod-'' @ ''us-only'' @ ''-mime-types-counts.csv'') = Some ''us-only''"
    by blast
  have "''prod-'' @ ''us-only'' @ ''-mime-types-counts.csv'' = ''prod-us-only-mime-types-counts.csv''"
    by simp
  with c have c': "extract_env ''prod-us-only-mime-types-counts.csv'' = Some ''us-only''"
    by (simp only:)
  from t c' have d: "\<exists>pre post. ''prod-us-only-mime-types-counts.csv''
          = pre @ ''prod-'' @ ''us-only'' @ ''-mime-types-counts.csv'' @ post
          \<and> newline \<notin> set ''us-only''"
    by blast
  from u b have e: "\<not> (\<exists>pre e post. ''mimeTypes.csv'' = pre @ ''prod-'' @ e @ ''-mime-types-counts.csv'' @ post
              \<and> newline \<notin> set e)"
    by blast
  from c' d e show ?thesis by blast
qed

subsection \<open>The tables are changed by the loader only\<close>

lemma write_reports_frame:
  "ext_to_mime (write_reports p v i env b w) = ext_to_mime w"
  "mime_patterns (write_reports p v i env b w) = mime_patterns w"
  "valid_mimes (write_reports p v i env b w) = valid_mimes w"
  by (simp_all add: write_reports_def write_invalid_mime_types_def write_valid_mime_types_def
      write_potential_mime_types_def print_def write_file_def)

lemma process_counts_frame:
  "ext_to_mime (snd (process_counts f p v i w)) = ext_to_mime w"
  "mime_patterns (snd (process_counts f p v i w)) = mime_patterns w"
  "valid_mimes (snd (process_counts f p v i w)) = valid_mimes w"
  by (simp_all add: process_counts_def Let_def write_reports_frame
      split: option.splits outcome.splits)

lemma print_frame:
  "ext_to_mime (print l w) = ext_to_mime w"
  "mime_patterns (print l w) = mime_patterns w"
  "valid_mimes (print l w) = valid_mimes w"
  by (simp_all add: print_def)

lemma main_loop_frame:
  "ext_to_mime (snd (main_loop envs t w)) = ext_to_mime w
   \<and> mime_patterns (snd (main_loop envs t w)) = mime_patterns w
   \<and> valid_mimes (snd (main_loop envs t w)) = valid_mimes w"
proof (induction envs t w rule: main_loop.induct)
  case (1 t w)
  then show ?case by simp
next
  case (2 infile p v i rest t w)
  show ?case
  proof (cases "sum_counts (find_file infile w) w")
    case (Raise e)
    then show ?thesis by simp
  next
    case (Return n)
    show ?thesis
    proof (cases "find_file infile w")
      case None
      with Return 2(1) [OF Return None] show ?thesis by (simp add: print_frame)
    next
      case (Some f)
      obtain r w' where pc: "process_counts f p v i w = (r, w')" by (cases "process_counts f p v i w")
      have fr: "ext_to_mime w' = ext_to_mime w" "mime_patterns w' = mime_patterns w"
        "valid_mimes w' = valid_mimes w"
        using process_counts_frame [of f p v i w] pc by simp_all
      show ?thesis
      proof (cases r)
        case (Raise e)
        with Return Some pc fr show ?thesis by simp
      next
        case (Return u)
        from 2(2) [OF \<open>sum_counts (find_file infile w) w = Return n\<close> Some pc [symmetric] Return]
        show ?thesis using \<open>sum_counts (find_file infile w) w = Return n\<close> Some pc Return fr by simp
      qed
    qed
  qed
qed

text \<open>
  Claim C10. The three tables are written by load_mime_mapping only. match_mime and
  sum_counts read the state and return a value; process_counts returns a state whose
  tables are those it was given; and the tables main ends with, on every path, are the
  ones load_mime_mapping left, so the loop over the three count files changes none.
\<close>

theorem tables_frame:
  "ext_to_mime (snd (process_counts f p v i w)) = ext_to_mime w
   \<and> mime_patterns (snd (process_counts f p v i w)) = mime_patterns w
   \<and> valid_mimes (snd (process_counts f p v i w)) = valid_mimes w
   \<and> ext_to_mime (snd (main w)) = ext_to_mime (snd (load_mime_mapping ''mimeTypes.csv'' w))
   \<and> mime_patterns (snd (main w)) = mime_patterns (snd (load_mime_mapping ''mimeTypes.csv'' w))
   \<and> valid_mimes (snd (main w)) = valid_mimes (snd (load_mime_mapping ''mimeTypes.csv'' w))"
proof -
  obtain r w1 where l: "load_mime_mapping ''mimeTypes.csv'' w = (r, w1)"
    by (cases "load_mime_mapping ''mimeTypes.csv'' w")
  obtain r2 w2 where m: "main_loop files_envs 0 w1 = (r2, w2)"
    by (cases "main_loop files_envs 0 w1")
  have fr: "ext_to_mime w2 = ext_to_mime w1" "mime_patterns w2 = mime_patterns w1"
    "valid_mimes w2 = valid_mimes w1"
    using main_loop_frame [of files_envs 0 w1] m by simp_all
  have "ext_to_mime (snd (main w)) = ext_to_mime w1
     \<and> mime_patterns (snd (main w)) = mime_patterns w1
     \<and> valid_mimes (snd (main w)) = valid_mimes w1"
    using l m fr by (cases r; cases r2) (simp_all add: main_def print_frame)
  with l show ?thesis by (simp add: process_counts_frame)
qed

subsection \<open>Valid entries\<close>

lemma map_of_dict_add:
  "map_of (dict_add k n d) k' =
     (if k' = k then Some ((case map_of d k of None \<Rightarrow> 0 | Some m \<Rightarrow> m) + n) else map_of d k')"
  by (simp add: dict_add_def map_of_dict_set)

lemma keys_dict_set: "fst ` set (dict_set k v d) = insert k (fst ` set d)"
proof (induction d)
  case Nil
  show ?case by simp
next
  case (Cons p d)
  obtain a b where p: "p = (a, b)" by (cases p)
  show ?case
  proof (cases "a = k")
    case True
    then show ?thesis by (simp add: p)
  next
    case False
    have "fst ` set (dict_set k v (p # d)) = insert a (fst ` set (dict_set k v d))"
      using False by (simp add: p)
    also have "\<dots> = insert a (insert k (fst ` set d))" by (simp only: Cons.IH)
    also have "\<dots> = insert k (fst ` set (p # d))" by (auto simp: p)
    finally show ?thesis .
  qed
qed

lemma set_dict_set: "set (dict_set k v d) \<subseteq> insert (k, v) (set d)"
proof (induction d)
  case Nil
  show ?case by simp
next
  case (Cons p d)
  obtain a b where p: "p = (a, b)" by (cases p)
  show ?case
  proof (cases "a = k")
    case True
    then show ?thesis by (simp add: p subset_insertI2)
  next
    case False
    with Cons.IH show ?thesis by (auto simp: p)
  qed
qed

lemma listed_dict_set: "listed (dict_set k v d) \<subseteq> set v \<union> listed d"
proof
  fix e assume "e \<in> listed (dict_set k v d)"
  then obtain k' es where m: "(k', es) \<in> set (dict_set k v d)" "e \<in> set es"
    unfolding listed_def by auto
  have "(k', es) \<in> insert (k, v) (set d)"
    using set_dict_set m(1) by (rule subsetD)
  then have "es = v \<or> (k', es) \<in> set d" by blast
  then show "e \<in> set v \<union> listed d"
  proof
    assume "es = v"
    with m(2) show ?thesis by simp
  next
    assume "(k', es) \<in> set d"
    with m(2) have "e \<in> listed d" unfolding listed_def by auto
    then show ?thesis by simp
  qed
qed

lemma listed_lookup: "set (case map_of d k of None \<Rightarrow> [] | Some xs \<Rightarrow> xs) \<subseteq> listed d"
proof (cases "map_of d k")
  case None
  then show ?thesis by simp
next
  case (Some xs)
  then have "(k, xs) \<in> set d" by (rule map_of_SomeD)
  then have "set xs \<subseteq> listed d" unfolding listed_def by blast
  with Some show ?thesis by simp
qed

lemma listed_dict_append: "listed (dict_append k x d) \<subseteq> insert x (listed d)"
proof -
  have "listed (dict_append k x d)
          \<subseteq> set ((case map_of d k of None \<Rightarrow> [] | Some xs \<Rightarrow> xs) @ [x]) \<union> listed d"
    unfolding dict_append_def by (rule listed_dict_set)
  also have "\<dots> = insert x (set (case map_of d k of None \<Rightarrow> [] | Some xs \<Rightarrow> xs) \<union> listed d)"
    by simp
  also have "\<dots> \<subseteq> insert x (listed d)"
    using listed_lookup [of d k] by blast
  finally show ?thesis .
qed

lemma keys_dict_append: "fst ` set (dict_append k x d) = insert k (fst ` set d)"
  unfolding dict_append_def by (rule keys_dict_set)

lemma keys_dict_add: "fst ` set (dict_add k n d) = insert k (fst ` set d)"
  unfolding dict_add_def by (rule keys_dict_set)

lemma apart_empty: "apart w empty_buckets"
  by (simp add: apart_def empty_buckets_def listed_def)

lemma apart_add_valid: "apart w b \<Longrightarrow> apart w (add_valid e n b)"
  by (simp add: apart_def add_valid_def)

lemma apart_add_invalid:
  assumes "apart w b" "e \<notin> valid_mimes w"
  shows "apart w (add_invalid e n b)"
proof -
  have "listed (dict_append e e (invalid_entry_map b)) \<inter> valid_mimes w = {}"
    using listed_dict_append [of e e "invalid_entry_map b"] assms
    unfolding apart_def by blast
  with assms show ?thesis
    by (simp add: apart_def add_invalid_def keys_dict_append keys_dict_add)
qed

lemma apart_add_potential:
  assumes "apart w b" "e \<notin> valid_mimes w"
  shows "apart w (add_potential m e n b)"
proof -
  have "listed (dict_append m e (potential_entry_map b)) \<inter> valid_mimes w = {}"
    using listed_dict_append [of m e "potential_entry_map b"] assms
    unfolding apart_def by blast
  with assms show ?thesis
    by (simp add: apart_def add_potential_def)
qed

lemma process_row_cases:
  assumes "process_row w row b = Return b'"
  obtains (skip) "b' = b"
    | (valid) e n where "e \<in> valid_mimes w" "b' = add_valid e n b"
    | (potential) e m n where "e \<notin> valid_mimes w" "b' = add_potential m e n b"
    | (invalid) e n where "e \<notin> valid_mimes w" "b' = add_invalid e n b"
  using assms unfolding process_row_def
  by (auto split: list.splits option.splits if_splits)

lemma apart_process_row:
  assumes "apart w b" "process_row w row b = Return b'"
  shows "apart w b'"
  using assms(2)
proof (cases rule: process_row_cases)
  case skip
  with assms(1) show ?thesis by simp
next
  case (valid e n)
  with assms(1) show ?thesis by (simp add: apart_add_valid)
next
  case (potential e m n)
  with assms(1) show ?thesis by (simp add: apart_add_potential)
next
  case (invalid e n)
  with assms(1) show ?thesis by (simp add: apart_add_invalid)
qed

lemma apart_process_rows:
  "apart w b \<Longrightarrow> process_rows w rows b = Return b' \<Longrightarrow> apart w b'"
proof (induction rows arbitrary: b)
  case Nil
  then show ?case by simp
next
  case (Cons row rows)
  show ?case
  proof (cases "process_row w row b")
    case (Raise e)
    with Cons.prems(2) show ?thesis by simp
  next
    case (Return b1)
    with Cons.prems(2) have r: "process_rows w rows b1 = Return b'" by simp
    from apart_process_row [OF Cons.prems(1) Return] have "apart w b1" .
    from Cons.IH [OF this r] show ?thesis .
  qed
qed

lemma valid_aggregate_step:
  assumes "entry \<in> valid_mimes w" "process_row w row b = Return b'"
  shows "map_of (valid_mime_aggregate b') entry =
           (if counted entry row
            then Some ((case map_of (valid_mime_aggregate b) entry of None \<Rightarrow> 0 | Some m \<Rightarrow> m)
                         + count_or_zero row)
            else map_of (valid_mime_aggregate b) entry)"
proof (cases row)
  case Nil
  with assms(2) show ?thesis by (simp add: process_row_def)
next
  case (Cons e cols)
  show ?thesis
  proof (cases "count_of row")
    case None
    with assms(2) Cons show ?thesis by (simp add: process_row_def counted_def)
  next
    case (Some n)
    show ?thesis
    proof (cases "e \<in> valid_mimes w")
      case True
      with assms(2) Cons Some have "b' = add_valid e n b" by (simp add: process_row_def)
      with Cons Some show ?thesis
        by (auto simp: add_valid_def map_of_dict_add counted_def count_or_zero_def)
    next
      case False
      with assms(1) have ne: "e \<noteq> entry" by blast
      from False assms(2) Cons Some
      have "valid_mime_aggregate b' = valid_mime_aggregate b"
        by (auto simp: process_row_def add_potential_def add_invalid_def
            split: option.splits if_splits)
      with ne Cons show ?thesis by (simp add: counted_def)
    qed
  qed
qed

lemma entry_total_Cons:
  "entry_total e (row # rows) = (if counted e row then count_or_zero row else 0) + entry_total e rows"
  by (simp add: entry_total_def)

lemma entry_total_none: "\<not> list_ex (counted e) rows \<Longrightarrow> entry_total e rows = 0"
  by (induction rows) (simp_all add: entry_total_def)

lemma valid_aggregate_loop:
  assumes "entry \<in> valid_mimes w"
  shows "process_rows w rows b0 = Return b \<Longrightarrow>
     map_of (valid_mime_aggregate b) entry =
       (if list_ex (counted entry) rows
        then Some ((case map_of (valid_mime_aggregate b0) entry of None \<Rightarrow> 0 | Some m \<Rightarrow> m)
                     + entry_total entry rows)
        else map_of (valid_mime_aggregate b0) entry)"
proof (induction rows arbitrary: b0)
  case Nil
  then show ?case by simp
next
  case (Cons row rows)
  show ?case
  proof (cases "process_row w row b0")
    case (Raise e)
    with Cons.prems show ?thesis by simp
  next
    case (Return b1)
    with Cons.prems have r: "process_rows w rows b1 = Return b" by simp
    note step = valid_aggregate_step [OF assms Return]
    note ih = Cons.IH [OF r]
    show ?thesis
    proof (cases "counted entry row")
      case True
      show ?thesis
      proof (cases "list_ex (counted entry) rows")
        case True
        with \<open>counted entry row\<close> ih step show ?thesis
          by (simp add: entry_total_Cons)
      next
        case False
        with \<open>counted entry row\<close> ih step entry_total_none [OF False] show ?thesis
          by (simp add: entry_total_Cons)
      qed
    next
      case False
      with ih step show ?thesis by (simp add: entry_total_Cons)
    qed
  qed
qed



text \<open>
  Claim C3. For an entry that is a member of the valid-MIME set: a row with that entry
  and a count that parses adds the count to the valid aggregate under the entry and to
  the valid sum and leaves the potential and the invalid bucket as they were. After the
  loop over a whole file the valid aggregate holds, under the entry, the sum of the
  counts of the rows that name it (no key when no such row has a count), and the entry
  is no key of the invalid bucket and is listed under no key of the potential or the
  invalid entry map.
\<close>

theorem valid_entry_counted:
  assumes "entry \<in> valid_mimes w"
  shows "(\<forall>cols n b. count_of (entry # cols) = Some n \<longrightarrow>
            process_row w (entry # cols) b = Return (add_valid entry n b)
            \<and> map_of (valid_mime_aggregate (add_valid entry n b)) entry =
                Some ((case map_of (valid_mime_aggregate b) entry of None \<Rightarrow> 0 | Some m \<Rightarrow> m) + n)
            \<and> valid_mime_sum (add_valid entry n b) = valid_mime_sum b + n
            \<and> potential_mime_aggregate (add_valid entry n b) = potential_mime_aggregate b
            \<and> potential_entry_map (add_valid entry n b) = potential_entry_map b
            \<and> possible_mime_sum (add_valid entry n b) = possible_mime_sum b
            \<and> invalid_mime_aggregate (add_valid entry n b) = invalid_mime_aggregate b
            \<and> invalid_entry_map (add_valid entry n b) = invalid_entry_map b
            \<and> invalid_mime_sum (add_valid entry n b) = invalid_mime_sum b)
       \<and> (\<forall>rows b. process_rows w rows empty_buckets = Return b \<longrightarrow>
            map_of (valid_mime_aggregate b) entry =
              (if list_ex (counted entry) rows then Some (entry_total entry rows) else None)
            \<and> entry \<notin> fst ` set (invalid_mime_aggregate b)
            \<and> entry \<notin> fst ` set (invalid_entry_map b)
            \<and> entry \<notin> listed (invalid_entry_map b)
            \<and> entry \<notin> listed (potential_entry_map b))"
proof -
  have first: "process_row w (entry # cols) b = Return (add_valid entry n b)"
    if "count_of (entry # cols) = Some n" for cols n b
    using that assms by (simp add: process_row_def)
  have second: "map_of (valid_mime_aggregate (add_valid entry n b)) entry =
          Some ((case map_of (valid_mime_aggregate b) entry of None \<Rightarrow> 0 | Some m \<Rightarrow> m) + n)"
    for n b
    by (simp add: add_valid_def map_of_dict_add)
  have third: "entry \<notin> fst ` set (invalid_mime_aggregate b)
            \<and> entry \<notin> fst ` set (invalid_entry_map b)
            \<and> entry \<notin> listed (invalid_entry_map b)
            \<and> entry \<notin> listed (potential_entry_map b)"
    if "process_rows w rows empty_buckets = Return b" for rows b
  proof -
    from apart_process_rows [OF apart_empty that] have "apart w b" .
    with assms show ?thesis unfolding apart_def by blast
  qed
  have fourth: "map_of (valid_mime_aggregate b) entry =
              (if list_ex (counted entry) rows then Some (entry_total entry rows) else None)"
    if "process_rows w rows empty_buckets = Return b" for rows b
    using valid_aggregate_loop [OF assms that] by (simp add: empty_buckets_def)
  have rest: "valid_mime_sum (add_valid entry n b) = valid_mime_sum b + n
            \<and> potential_mime_aggregate (add_valid entry n b) = potential_mime_aggregate b
            \<and> potential_entry_map (add_valid entry n b) = potential_entry_map b
            \<and> possible_mime_sum (add_valid entry n b) = possible_mime_sum b
            \<and> invalid_mime_aggregate (add_valid entry n b) = invalid_mime_aggregate b
            \<and> invalid_entry_map (add_valid entry n b) = invalid_entry_map b
            \<and> invalid_mime_sum (add_valid entry n b) = invalid_mime_sum b" for n b
    by (simp add: add_valid_def)
  from first second third fourth rest show ?thesis by blast
qed

theorem valid_entry_counted_witness:
  "''image/jpeg'' \<in> valid_mimes (load_row ''jpg'' ''image/jpeg'' (initial_world []))
   \<and> count_of [''image/jpeg'', ''5''] = Some 5
   \<and> process_row (load_row ''jpg'' ''image/jpeg'' (initial_world [])) [''image/jpeg'', ''5'']
         empty_buckets = Return (add_valid ''image/jpeg'' 5 empty_buckets)
   \<and> valid_mime_sum (add_valid ''image/jpeg'' 5 empty_buckets) = valid_mime_sum empty_buckets + 5
   \<and> process_rows (load_row ''jpg'' ''image/jpeg'' (initial_world []))
         [[''image/jpeg'', ''5''], [''image/jpeg'', ''x''], [''image/jpeg'', ''3'']] empty_buckets
       = Return (add_valid ''image/jpeg'' 3 (add_valid ''image/jpeg'' 5 empty_buckets))
   \<and> map_of (valid_mime_aggregate (add_valid ''image/jpeg'' 3 (add_valid ''image/jpeg'' 5 empty_buckets)))
         ''image/jpeg'' = Some 8
   \<and> ''image/jpeg'' \<notin> listed (potential_entry_map
         (add_valid ''image/jpeg'' 3 (add_valid ''image/jpeg'' 5 empty_buckets)))
   \<and> ''image/jpeg'' \<notin> fst ` set (invalid_mime_aggregate
         (add_valid ''image/jpeg'' 3 (add_valid ''image/jpeg'' 5 empty_buckets)))"
proof -
  define W where "W = load_row ''jpg'' ''image/jpeg'' (initial_world [])"
  define e where "e = ''image/jpeg''"
  define rows where "rows = [e # [''5''], e # [''x''], e # [''3'']]"
  define B where "B = add_valid e 3 (add_valid e 5 empty_buckets)"
  have a: "e \<in> valid_mimes W"
    unfolding W_def e_def by code_simp
  have c5: "count_of (e # [''5'']) = Some 5"
    unfolding e_def by code_simp
  have cx: "count_of (e # [''x'']) = None"
    unfolding e_def by code_simp
  have c3: "count_of (e # [''3'']) = Some 3"
    unfolding e_def by code_simp
  note t = valid_entry_counted [OF a]
  from t c5 have p5: "process_row W (e # [''5'']) empty_buckets = Return (add_valid e 5 empty_buckets)"
    by blast
  from t c5 have s: "valid_mime_sum (add_valid e 5 empty_buckets) = valid_mime_sum empty_buckets + 5"
    by blast
  from t c3 have p3: "process_row W (e # [''3'']) (add_valid e 5 empty_buckets) = Return B"
    unfolding B_def by blast
  have px: "process_row W (e # [''x'']) (add_valid e 5 empty_buckets)
              = Return (add_valid e 5 empty_buckets)"
    using cx by (simp add: process_row_def)
  from p5 px p3 have r: "process_rows W rows empty_buckets = Return B"
    unfolding rows_def by simp
  have ex: "list_ex (counted e) rows"
    unfolding rows_def using c5 by (simp add: counted_def)
  have tot: "entry_total e rows = 8"
    unfolding rows_def entry_total_def using c5 cx c3 by (simp add: counted_def count_or_zero_def)
  from t r have "map_of (valid_mime_aggregate B) e
      = (if list_ex (counted e) rows then Some (entry_total e rows) else None)"
    by blast
  with ex tot have m: "map_of (valid_mime_aggregate B) e = Some 8" by simp
  from t r have n: "e \<notin> listed (potential_entry_map B)
      \<and> e \<notin> fst ` set (invalid_mime_aggregate B)"
    by blast
  from a c5 p5 s r m n show ?thesis unfolding W_def e_def rows_def B_def by simp
qed

subsection \<open>Sums and rows without a count\<close>

lemma sum_rows_acc: "sum_rows t rows = t + sum_rows 0 rows"
proof (induction rows arbitrary: t)
  case Nil
  show ?case by simp
next
  case (Cons row rows)
  show ?case
  proof (cases "count_of row")
    case None
    with Cons.IH [of t] show ?thesis by simp
  next
    case (Some n)
    with Cons.IH [of "t + n"] Cons.IH [of n] show ?thesis by simp
  qed
qed

lemma process_row_total:
  assumes "process_row w row b = Return b'"
  shows "valid_mime_sum b' + possible_mime_sum b' + invalid_mime_sum b' =
           valid_mime_sum b + possible_mime_sum b + invalid_mime_sum b
             + (case count_of row of None \<Rightarrow> 0 | Some n \<Rightarrow> n)"
  using assms unfolding process_row_def
  by (auto simp: add_valid_def add_potential_def add_invalid_def
      split: list.splits option.splits if_splits)

lemma process_rows_total:
  "process_rows w rows b = Return b' \<Longrightarrow>
     valid_mime_sum b' + possible_mime_sum b' + invalid_mime_sum b' =
       valid_mime_sum b + possible_mime_sum b + invalid_mime_sum b + sum_rows 0 rows"
proof (induction rows arbitrary: b)
  case Nil
  then show ?case by simp
next
  case (Cons row rows)
  show ?case
  proof (cases "process_row w row b")
    case (Raise e)
    with Cons.prems show ?thesis by simp
  next
    case (Return b1)
    with Cons.prems have r: "process_rows w rows b1 = Return b'" by simp
    show ?thesis
    proof (cases "count_of row")
      case None
      with Cons.IH [OF r] process_row_total [OF Return] show ?thesis by simp
    next
      case (Some n)
      with Cons.IH [OF r] process_row_total [OF Return] sum_rows_acc [of n rows]
      show ?thesis by simp
    qed
  qed
qed

lemma process_row_returns: "row \<noteq> [] \<Longrightarrow> \<exists>b'. process_row w row b = Return b'"
  unfolding process_row_def by (auto split: list.splits option.splits)

lemma process_rows_returns: "[] \<notin> set rows \<Longrightarrow> \<exists>b'. process_rows w rows b = Return b'"
proof (induction rows arbitrary: b)
  case Nil
  show ?case by simp
next
  case (Cons row rows)
  then have "row \<noteq> []" "[] \<notin> set rows" by auto
  from process_row_returns [OF this(1)] obtain b1 where "process_row w row b = Return b1" by blast
  with Cons.IH [OF \<open>[] \<notin> set rows\<close>, of b1] show ?case by simp
qed

lemma process_rows_sum_invariant:
  assumes "[] \<notin> set rows"
  shows "\<exists>b. process_rows w rows empty_buckets = Return b
           \<and> valid_mime_sum b + possible_mime_sum b + invalid_mime_sum b = sum_rows 0 rows"
proof -
  from process_rows_returns [OF assms] obtain b where b: "process_rows w rows empty_buckets = Return b"
    by blast
  from process_rows_total [OF b] have
    "valid_mime_sum b + possible_mime_sum b + invalid_mime_sum b = sum_rows 0 rows"
    by (simp add: empty_buckets_def)
  with b show ?thesis by blast
qed

lemma process_row_skips:
  "count_of (entry # cols) = None \<Longrightarrow> process_row w (entry # cols) b = Return b"
  by (simp add: process_row_def)

lemma sum_scenario:
  "process_rows (load_row ''jpg'' ''image/jpeg'' (initial_world []))
     [[''image/jpeg'', ''5''], [''myfilejpg'', ''3''], [''bogus/type'', ''2''], [''badrow'', ''x'']]
     empty_buckets
   = Return \<lparr>valid_mime_aggregate = [(''image/jpeg'', 5)],
        invalid_mime_aggregate = [(''bogus/type'', 2)],
        potential_mime_aggregate = [(''image/jpeg'', 3)],
        valid_entry_map = [(''image/jpeg'', [''image/jpeg''])],
        invalid_entry_map = [(''bogus/type'', [''bogus/type''])],
        potential_entry_map = [(''image/jpeg'', [''myfilejpg''])],
        valid_mime_sum = 5, invalid_mime_sum = 2, possible_mime_sum = 3\<rparr>"
  by code_simp

text \<open>
  Claim C5. A row with a first field and a missing or unparsable count is passed over
  (\<open>process_row_skips\<close>). The empty row, which also has no count, is not: process_counts
  raises IndexError at \<open>row[0]\<close>, while sum_counts passes over the same row.
\<close>

theorem empty_row_not_skipped:
  "process_rows w ([] # rows) b = Raise IndexError
   \<and> sum_rows t ([] # rows) = sum_rows t rows"
  by (simp add: process_row_def count_of_def)

text \<open>
  Claim C4. On a count file none of whose rows is empty the three bucket sums add up to
  the total of sum_counts (\<open>process_rows_sum_invariant\<close>), and the scenario of the
  claim gives 5, 3 and 2 (\<open>sum_scenario\<close>). On a count file with an empty row
  process_counts raises IndexError and computes no sums, while sum_counts returns a
  total: here 8.
\<close>

theorem sum_invariant_broken_by_empty_row:
  "fst (process_counts ''prod-us-only-mime-types-counts.csv'' ''mime-type-mapping-US.csv''
          ''valid-mime-type-mapping-US.csv'' ''invalid-mime-type-mapping-US.csv''
          (load_row ''jpg'' ''image/jpeg''
             (initial_world
                [(''prod-us-only-mime-types-counts.csv'',
                  [[''entry'', ''count''], [''image/jpeg'', ''5''], [], [''myfilejpg'', ''3'']])])))
     = Raise IndexError
   \<and> sum_counts (Some ''prod-us-only-mime-types-counts.csv'')
         (load_row ''jpg'' ''image/jpeg''
            (initial_world
               [(''prod-us-only-mime-types-counts.csv'',
                 [[''entry'', ''count''], [''image/jpeg'', ''5''], [], [''myfilejpg'', ''3'']])]))
     = Return 8"
  by code_simp

lemma missing_file_raises:
  "find_file infile w = None \<Longrightarrow>
     main_loop ((infile, p, v, i) # rest) t w = (Raise TypeError, w)"
  by (simp add: sum_counts_def)

lemma console_write_reports:
  "\<exists>ls. console (write_reports p v i env b w) = console w @ ls
     \<and> list_all (starts_with ''Sum of counts'') ls"
  by (simp add: write_reports_def write_invalid_mime_types_def write_valid_mime_types_def
      write_potential_mime_types_def print_def write_file_def)

lemma console_process_counts:
  "\<exists>ls. console (snd (process_counts f p v i w)) = console w @ ls
     \<and> list_all (starts_with ''Sum of counts'') ls"
proof (cases "map_of (files w) f")
  case None
  then show ?thesis by (simp add: process_counts_def)
next
  case (Some rows)
  show ?thesis
  proof (cases "process_rows w (tl rows) empty_buckets")
    case (Raise e)
    with Some show ?thesis by (simp add: process_counts_def)
  next
    case (Return b)
    with Some console_write_reports [of p v i "extract_env f" b w]
    show ?thesis by (simp add: process_counts_def)
  qed
qed

lemma console_main_loop:
  "\<exists>ls. console (snd (main_loop envs t w)) = console w @ ls
     \<and> list_all (starts_with ''Sum of counts'') ls"
proof (induction envs t w rule: main_loop.induct)
  case (1 t w)
  then show ?case by simp
next
  case (2 infile p v i rest t w)
  show ?case
  proof (cases "sum_counts (find_file infile w) w")
    case (Raise e)
    then show ?thesis by simp
  next
    case (Return n)
    show ?thesis
    proof (cases "find_file infile w")
      case None
      with Return show ?thesis by (simp add: sum_counts_def)
    next
      case (Some f)
      obtain r w' where pc: "process_counts f p v i w = (r, w')"
        by (cases "process_counts f p v i w")
      from console_process_counts [of f p v i w] pc obtain ls1 where
        l1: "console w' = console w @ ls1" "list_all (starts_with ''Sum of counts'') ls1"
        by auto
      show ?thesis
      proof (cases r)
        case (Raise e)
        with Return Some pc l1 show ?thesis by simp
      next
        case u: (Return u)
        from 2(2) [OF Return Some pc [symmetric] u] obtain ls2 where
          l2: "console (snd (main_loop rest (t + n) w')) = console w' @ ls2"
          "list_all (starts_with ''Sum of counts'') ls2" by blast
        have "console (snd (main_loop ((infile, p, v, i) # rest) t w)) = console w @ (ls1 @ ls2)
           \<and> list_all (starts_with ''Sum of counts'') (ls1 @ ls2)"
          using Return Some pc u l1 l2 by simp
        then show ?thesis by (intro exI)
      qed
    qed
  qed
qed

lemma file_not_found_never_printed:
  "list_all (\<lambda>line. \<not> starts_with ''File not found'' line) (console (snd (run dir)))"
proof -
  define w0 where "w0 = initial_world dir"
  obtain rl wl where load: "load_mime_mapping ''mimeTypes.csv'' w0 = (rl, wl)"
    by (cases "load_mime_mapping ''mimeTypes.csv'' w0")
  have cl: "console wl = []"
  proof -
    have "console (snd (load_rows h rows w)) = console w" for h rows w
      by (induction h rows w rule: load_rows.induct)
         (simp_all add: load_row_def Let_def split: outcome.splits)
    then have "console (snd (load_mime_mapping ''mimeTypes.csv'' w0)) = console w0"
      by (simp add: load_mime_mapping_def split: option.splits list.splits)
    with load show ?thesis by (simp add: w0_def initial_world_def)
  qed
  obtain r w2 where loop: "main_loop files_envs 0 wl = (r, w2)"
    by (cases "main_loop files_envs 0 wl")
  from console_main_loop [of files_envs 0 wl] loop cl obtain ls where
    ls: "console w2 = ls" "list_all (starts_with ''Sum of counts'') ls" by auto
  have sum_not: "\<not> starts_with ''File not found'' l" if "starts_with ''Sum of counts'' l" for l
    using that by (cases l) auto
  from ls(2) have ok: "list_all (\<lambda>line. \<not> starts_with ''File not found'' line) ls"
    unfolding list_all_iff using sum_not by blast
  show ?thesis
  proof (cases rl)
    case (Raise e)
    with load cl show ?thesis by (simp add: run_def main_def w0_def [symmetric])
  next
    case (Return u)
    show ?thesis
    proof (cases r)
      case (Raise e)
      with Return load loop ls(1) ok show ?thesis
        by (simp add: run_def main_def w0_def [symmetric])
    next
      case t: (Return total_count)
      with Return load loop ls(1) ok show ?thesis
        by (simp add: run_def main_def w0_def [symmetric] print_def)
    qed
  qed
qed

text \<open>
  Claim C1. A run in a directory without the EU count file: the US file is processed,
  then sum_counts is called on the null path and raises TypeError, which ends the run.
  The test of the path is not reached, so the line \<open>File not found\<close> is not printed:
  the console holds the three lines of the US file only. In general, a missing count file
  ends the loop with TypeError (\<open>missing_file_raises\<close>) and no run prints that line
  (\<open>file_not_found_never_printed\<close>).
\<close>

theorem missing_file_aborts_before_message:
  "fst (run [(''mimeTypes.csv'', [[''extension'', ''mime_type''], [''jpg'', ''image/jpeg'']]),
             (''prod-us-only-mime-types-counts.csv'',
              [[''entry'', ''count''], [''image/jpeg'', ''10''], [''testJPG'', ''4''],
               [''weirdstuff'', ''1'']])])
     = Raise TypeError
   \<and> console (snd (run
         [(''mimeTypes.csv'', [[''extension'', ''mime_type''], [''jpg'', ''image/jpeg'']]),
          (''prod-us-only-mime-types-counts.csv'',
           [[''entry'', ''count''], [''image/jpeg'', ''10''], [''testJPG'', ''4''],
            [''weirdstuff'', ''1'']])]))
     = [''Sum of counts for possible mime type matches for us-only: 4'' @ [newline],
        ''Sum of counts for valid mime type matches for us-only: 10'' @ [newline],
        ''Sum of counts for invalid mime type matches for us-only: 1'' @ [newline]]"
  by code_simp

text \<open>
  Claim C2. A mapping file whose first row has an empty MIME type: for the entry
  \<open>myfilejpg\<close> match_mime returns the empty string, the earliest-registered MIME
  type with a matching pattern; a pattern of \<open>image/jpeg\<close> matches too. The \<open>elif\<close>
  takes the empty string for no match, and the entry is counted as invalid.
\<close>

theorem empty_mime_match_is_invalid:
  "match_mime
     (snd (load_rows [''extension'', ''mime_type''] [[''zip'', []], [''jpg'', ''image/jpeg'']]
             (initial_world [])))
     (normalize_entry ''myfilejpg'') = Some []
   \<and> list_ex (\<lambda>p. search p (normalize_entry ''myfilejpg''))
        (lookup_list (mime_patterns
           (snd (load_rows [''extension'', ''mime_type''] [[''zip'', []], [''jpg'', ''image/jpeg'']]
                   (initial_world [])))) ''image/jpeg'')
   \<and> process_rows
        (snd (load_rows [''extension'', ''mime_type''] [[''zip'', []], [''jpg'', ''image/jpeg'']]
                (initial_world [])))
        [[''myfilejpg'', ''3'']] empty_buckets
      = Return (add_invalid ''myfilejpg'' 3 empty_buckets)"
  by code_simp

subsection \<open>match_mime and the tables the loader builds\<close>




lemma match_items_SomeI:
  "(\<forall>x \<in> set pre. \<not> list_ex (\<lambda>p. search p e) (snd x)) \<Longrightarrow> list_ex (\<lambda>p. search p e) ps \<Longrightarrow>
     match_items (pre @ (m, ps) # post) e = Some m"
proof (induction pre)
  case Nil
  then show ?case by simp
next
  case (Cons x pre)
  obtain a b where x: "x = (a, b)" by (cases x)
  from Cons.prems(1) have "\<not> list_ex (\<lambda>p. search p e) b"
    and r: "\<forall>x \<in> set pre. \<not> list_ex (\<lambda>p. search p e) (snd x)" by (simp_all add: x)
  with Cons.IH [OF r Cons.prems(2)] show ?case by (simp add: x)
qed

lemma match_items_SomeD:
  "match_items items e = Some m \<Longrightarrow>
     \<exists>pre ps post. items = pre @ (m, ps) # post \<and> list_ex (\<lambda>p. search p e) ps
        \<and> (\<forall>x \<in> set pre. \<not> list_ex (\<lambda>p. search p e) (snd x))"
proof (induction items)
  case Nil
  then show ?case by simp
next
  case (Cons x items)
  obtain a b where x: "x = (a, b)" by (cases x)
  show ?case
  proof (cases "list_ex (\<lambda>p. search p e) b")
    case True
    with Cons.prems have "a = m" by (simp add: x)
    with True have "x # items = [] @ (m, b) # items \<and> list_ex (\<lambda>p. search p e) b
        \<and> (\<forall>x \<in> set []. \<not> list_ex (\<lambda>p. search p e) (snd x))" by (simp add: x)
    then show ?thesis by (intro exI)
  next
    case False
    with Cons.prems have "match_items items e = Some m" by (simp add: x)
    from Cons.IH [OF this] obtain pre ps post where
      d: "items = pre @ (m, ps) # post" "list_ex (\<lambda>p. search p e) ps"
      "\<forall>x \<in> set pre. \<not> list_ex (\<lambda>p. search p e) (snd x)" by blast
    from d False have "x # items = (x # pre) @ (m, ps) # post \<and> list_ex (\<lambda>p. search p e) ps
        \<and> (\<forall>y \<in> set (x # pre). \<not> list_ex (\<lambda>p. search p e) (snd y))" by (simp add: x)
    then show ?thesis by (intro exI)
  qed
qed

lemma keys_order_dict_set:
  "map fst (dict_set k v d) = (if k \<in> set (map fst d) then map fst d else map fst d @ [k])"
proof (induction d)
  case Nil
  show ?case by simp
next
  case (Cons p d)
  obtain a b where p: "p = (a, b)" by (cases p)
  show ?case
  proof (cases "a = k")
    case True
    then show ?thesis by (simp add: p)
  next
    case False
    with Cons.IH show ?thesis by (simp add: p)
  qed
qed

lemma potential_attributed:
  assumes "entry \<notin> valid_mimes w" "count_of (entry # cols) = Some n"
    "match_mime w (normalize_entry entry) = Some m" "m \<noteq> []"
  shows "process_row w (entry # cols) b = Return (add_potential m entry n b)"
    and "lookup_list (potential_entry_map (add_potential m entry n b)) m
           = lookup_list (potential_entry_map b) m @ [entry]"
    and "possible_mime_sum (add_potential m entry n b) = possible_mime_sum b + n"
  using assms by (simp_all add: process_row_def add_potential_def lookup_list_dict_append)







subsection \<open>Entries that are valid only after lower-casing\<close>




subsection \<open>A second run writes the same reports\<close>

lemma apply_writes_Nil: "apply_writes [] d = d"
  by (simp add: apply_writes_def)

lemma apply_writes_Cons: "apply_writes ((n, c) # ws) d = apply_writes ws (dict_set n c d)"
  by (simp add: apply_writes_def)

lemma apply_writes_append: "apply_writes (ws @ ws') d = apply_writes ws' (apply_writes ws d)"
  by (simp add: apply_writes_def)

lemma dict_set_same: "map_of d n = Some c \<Longrightarrow> dict_set n c d = d"
proof (induction d)
  case Nil
  then show ?case by simp
next
  case (Cons p d)
  obtain a b where p: "p = (a, b)" by (cases p)
  show ?case
  proof (cases "a = n")
    case True
    with Cons.prems show ?thesis by (simp add: p)
  next
    case False
    with Cons.prems have "map_of d n = Some c" by (simp add: p)
    from Cons.IH [OF this] False show ?thesis by (simp add: p)
  qed
qed

lemma map_of_apply_writes_other:
  "n \<notin> fst ` set ws \<Longrightarrow> map_of (apply_writes ws d) n = map_of d n"
proof (induction ws arbitrary: d)
  case Nil
  show ?case by (simp add: apply_writes_Nil)
next
  case (Cons x ws)
  obtain a c where x: "x = (a, c)" by (cases x)
  from Cons.prems have "n \<noteq> a" "n \<notin> fst ` set ws" by (auto simp: x)
  with Cons.IH [of "dict_set a c d"] show ?case
    by (simp add: x apply_writes_Cons map_of_dict_set)
qed

lemma map_of_apply_writes:
  "distinct (map fst ws) \<Longrightarrow> (n, c) \<in> set ws \<Longrightarrow> map_of (apply_writes ws d) n = Some c"
proof (induction ws arbitrary: d)
  case Nil
  then show ?case by simp
next
  case (Cons x ws)
  obtain a b where x: "x = (a, b)" by (cases x)
  from Cons.prems(1) have d: "distinct (map fst ws)" "a \<notin> fst ` set ws" by (simp_all add: x)
  show ?case
  proof (cases "(n, c) = (a, b)")
    case True
    with d(2) have "map_of (apply_writes ws (dict_set a b d)) n = map_of (dict_set a b d) n"
      by (intro map_of_apply_writes_other) simp
    with True show ?thesis by (simp add: x apply_writes_Cons map_of_dict_set)
  next
    case False
    with Cons.prems(2) have "(n, c) \<in> set ws" by (auto simp: x)
    from Cons.IH [OF d(1) this] show ?thesis by (simp add: x apply_writes_Cons)
  qed
qed

lemma apply_writes_fixed:
  "(\<And>n c. (n, c) \<in> set ws \<Longrightarrow> map_of d n = Some c) \<Longrightarrow> apply_writes ws d = d"
proof (induction ws)
  case Nil
  show ?case by (simp add: apply_writes_Nil)
next
  case (Cons x ws)
  obtain a b where x: "x = (a, b)" by (cases x)
  have "map_of d a = Some b" using Cons.prems [of a b] by (simp add: x)
  then have "dict_set a b d = d" by (rule dict_set_same)
  moreover have "apply_writes ws d = d"
  proof (rule Cons.IH)
    fix n c assume "(n, c) \<in> set ws"
    then show "map_of d n = Some c" using Cons.prems [of n c] by simp
  qed
  ultimately show ?case by (simp add: x apply_writes_Cons)
qed

lemma apply_writes_twice:
  assumes "distinct (map fst ws)"
  shows "apply_writes ws (apply_writes ws d) = apply_writes ws d"
  by (rule apply_writes_fixed) (rule map_of_apply_writes [OF assms])

lemma find_in_lower: "find_in pat d = Some n \<Longrightarrow> lower n = lower pat"
  by (induction pat d rule: find_in.induct) (auto split: if_splits)

lemma find_in_dict_set:
  "lower n \<noteq> lower pat \<Longrightarrow> find_in pat (dict_set n c d) = find_in pat d"
proof (induction d)
  case Nil
  then show ?case by simp
next
  case (Cons p d)
  obtain a b where p: "p = (a, b)" by (cases p)
  from Cons show ?case by (auto simp: p)
qed

lemma agree_refl: "agree d d"
  by (simp add: agree_def)

lemma agree_find:
  "agree d d' \<Longrightarrow> pat \<in> set (map fst files_envs) \<Longrightarrow> find_in pat d = find_in pat d'"
  unfolding agree_def by blast

lemma agree_map_of:
  "agree d d' \<Longrightarrow> lower name \<in> lower ` set (map fst files_envs) \<Longrightarrow>
     map_of d name = map_of d' name"
  unfolding agree_def by blast

lemma agree_mapping: "agree d d' \<Longrightarrow> map_of d ''mimeTypes.csv'' = map_of d' ''mimeTypes.csv''"
  unfolding agree_def by blast

lemma agree_dict_set:
  assumes "agree d d'" "safe n"
  shows "agree (dict_set n c d) (dict_set n c d')"
proof -
  from assms(2) have a: "n \<noteq> ''mimeTypes.csv''" and b: "lower n \<notin> lower ` set (map fst files_envs)"
    unfolding safe_def by simp_all
  from assms(1) have "map_of d ''mimeTypes.csv'' = map_of d' ''mimeTypes.csv''"
    unfolding agree_def by blast
  with a have 1: "map_of (dict_set n c d) ''mimeTypes.csv'' = map_of (dict_set n c d') ''mimeTypes.csv''"
    by (simp add: map_of_dict_set)
  have 2: "find_in pat (dict_set n c d) = find_in pat (dict_set n c d')"
    if "pat \<in> set (map fst files_envs)" for pat
  proof -
    from that b have "lower n \<noteq> lower pat" by blast
    then have "find_in pat (dict_set n c d) = find_in pat d"
      "find_in pat (dict_set n c d') = find_in pat d'" by (simp_all add: find_in_dict_set)
    moreover from assms(1) that have "find_in pat d = find_in pat d'"
      unfolding agree_def by blast
    ultimately show ?thesis by simp
  qed
  have 3: "map_of (dict_set n c d) name = map_of (dict_set n c d') name"
    if "lower name \<in> lower ` set (map fst files_envs)" for name
  proof -
    from that b have "name \<noteq> n" by blast
    moreover from assms(1) that have "map_of d name = map_of d' name"
      unfolding agree_def by blast
    ultimately show ?thesis by (simp add: map_of_dict_set)
  qed
  from 1 2 3 show ?thesis unfolding agree_def by blast
qed

lemma agree_dict_set_left:
  assumes "safe n"
  shows "agree d (dict_set n c d)"
proof -
  from assms have a: "n \<noteq> ''mimeTypes.csv''" and b: "lower n \<notin> lower ` set (map fst files_envs)"
    unfolding safe_def by simp_all
  have 2: "find_in pat d = find_in pat (dict_set n c d)"
    if "pat \<in> set (map fst files_envs)" for pat
  proof -
    from that b have "lower n \<noteq> lower pat" by blast
    then show ?thesis by (simp add: find_in_dict_set)
  qed
  have 3: "map_of d name = map_of (dict_set n c d) name"
    if "lower name \<in> lower ` set (map fst files_envs)" for name
  proof -
    from that b have "name \<noteq> n" by blast
    then show ?thesis by (simp add: map_of_dict_set)
  qed
  from a have 1: "map_of d ''mimeTypes.csv'' = map_of (dict_set n c d) ''mimeTypes.csv''"
    by (simp add: map_of_dict_set)
  from 1 2 3 show ?thesis unfolding agree_def by blast
qed

lemma agree_trans: "agree d d' \<Longrightarrow> agree d' d'' \<Longrightarrow> agree d d''"
  unfolding agree_def by (intro conjI ballI allI impI) (blast intro: trans)+

lemma agree_apply_writes:
  "agree d d' \<Longrightarrow> (\<And>n. n \<in> fst ` set ws \<Longrightarrow> safe n) \<Longrightarrow>
     agree (apply_writes ws d) (apply_writes ws d')"
proof (induction ws arbitrary: d d')
  case Nil
  then show ?case by (simp add: apply_writes_Nil)
next
  case (Cons x ws)
  obtain a b where x: "x = (a, b)" by (cases x)
  have "safe a" using Cons.prems(2) [of a] by (simp add: x)
  from agree_dict_set [OF Cons.prems(1) this]
  have "agree (dict_set a b d) (dict_set a b d')" .
  moreover have "safe n" if "n \<in> fst ` set ws" for n
    using Cons.prems(2) [of n] that by (simp add: x)
  ultimately have "agree (apply_writes ws (dict_set a b d)) (apply_writes ws (dict_set a b d'))"
    by (rule Cons.IH)
  then show ?case by (simp add: x apply_writes_Cons)
qed

lemma agree_apply_writes_left:
  "(\<And>n. n \<in> fst ` set ws \<Longrightarrow> safe n) \<Longrightarrow> agree d (apply_writes ws d)"
proof (induction ws arbitrary: d)
  case Nil
  show ?case by (simp add: apply_writes_Nil agree_refl)
next
  case (Cons x ws)
  obtain a b where x: "x = (a, b)" by (cases x)
  have "safe a" using Cons.prems [of a] by (simp add: x)
  then have 1: "agree d (dict_set a b d)" by (rule agree_dict_set_left)
  have "safe n" if "n \<in> fst ` set ws" for n
    using Cons.prems [of n] that by (simp add: x)
  then have "agree (dict_set a b d) (apply_writes ws (dict_set a b d))" by (rule Cons.IH)
  with 1 have "agree d (apply_writes ws (dict_set a b d))" by (rule agree_trans)
  then show ?case by (simp add: x apply_writes_Cons)
qed

lemma match_mime_files: "match_mime (w\<lparr>files := d\<rparr>) e = match_mime w e"
  by (simp add: match_mime_def)

lemma process_row_files: "process_row (w\<lparr>files := d\<rparr>) row b = process_row w row b"
  by (simp add: process_row_def match_mime_files split: list.splits option.splits)

lemma process_rows_files: "process_rows (w\<lparr>files := d\<rparr>) rows b = process_rows w rows b"
  by (induction rows arbitrary: b) (simp_all add: process_row_files split: outcome.splits)

lemma load_row_files: "load_row e m (w\<lparr>files := d\<rparr>) = (load_row e m w)\<lparr>files := d\<rparr>"
  by (simp add: load_row_def Let_def)

lemma load_rows_files:
  "load_rows h rows (w\<lparr>files := d\<rparr>)
     = (fst (load_rows h rows w), (snd (load_rows h rows w))\<lparr>files := d\<rparr>)"
proof (induction h rows w rule: load_rows.induct)
  case (1 h w)
  show ?case by simp
next
  case (2 h row rows w)
  show ?case
  proof (cases "row = []")
    case True
    with 2(1) show ?thesis by simp
  next
    case False
    show ?thesis
    proof (cases "dict_field h row ''extension''")
      case (Raise e)
      with False show ?thesis by simp
    next
      case (Return ef)
      show ?thesis
      proof (cases "dict_field h row ''mime_type''")
        case (Raise e)
        with False Return show ?thesis by simp
      next
        case mf: (Return mf)
        from 2(2) [OF False Return mf] False Return mf show ?thesis
          by (simp add: load_row_files)
      qed
    qed
  qed
qed

lemma files_load_row: "files (load_row e m w) = files w"
  by (simp add: load_row_def Let_def)

lemma files_load_rows: "files (snd (load_rows h rows w)) = files w"
  by (induction h rows w rule: load_rows.induct)
     (simp_all add: files_load_row split: outcome.splits)

lemma files_load_mime_mapping: "files (snd (load_mime_mapping path w)) = files w"
  by (simp add: load_mime_mapping_def files_load_rows split: option.splits list.splits)

lemma load_mime_mapping_files:
  assumes "map_of d path = map_of (files w) path"
  shows "load_mime_mapping path (w\<lparr>files := d\<rparr>)
     = (fst (load_mime_mapping path w), (snd (load_mime_mapping path w))\<lparr>files := d\<rparr>)"
  using assms
  by (simp add: load_mime_mapping_def load_rows_files split: option.splits list.splits)

lemma write_reports_shape:
  "\<exists>ws ls. map fst ws = [p, v, i]
     \<and> (\<forall>w. write_reports p v i env b w
              = w\<lparr>files := apply_writes ws (files w), console := console w @ ls\<rparr>)"
proof -
  define cp where "cp = [[''Matched Mime Types'', ''Count'', ''Potential Mime Types'']]
             @ map (\<lambda>(mime, total_count).
                      [mime, str_int total_count,
                       join '', '' (lookup_list (potential_entry_map b) mime)])
                 (potential_mime_aggregate b)
             @ [[''Total Count'', str_int (possible_mime_sum b), []]]"
  define cv where "cv = [[''Valid Mime Types'', ''Count'']]
             @ map (\<lambda>(mime, total_count). [mime, str_int total_count]) (valid_mime_aggregate b)
             @ [[''Total Valid Count'', str_int (valid_mime_sum b)]]"
  define ci where "ci = [[''Invalid Mime Types'', ''Count'']]
             @ map (\<lambda>(mime, total_count). [mime, str_int total_count]) (invalid_mime_aggregate b)
             @ [[''Total Invalid Count'', str_int (invalid_mime_sum b)]]"
  define ls where "ls =
    [''Sum of counts for possible mime type matches for '' @ env_text env @ '': ''
              @ str_int (possible_mime_sum b) @ [newline],
     ''Sum of counts for valid mime type matches for '' @ env_text env @ '': ''
              @ str_int (valid_mime_sum b) @ [newline],
     ''Sum of counts for invalid mime type matches for '' @ env_text env @ '': ''
              @ str_int (invalid_mime_sum b) @ [newline]]"
  have "write_reports p v i env b w
          = w\<lparr>files := apply_writes [(p, cp), (v, cv), (i, ci)] (files w),
               console := console w @ ls\<rparr>" for w
    unfolding write_reports_def write_invalid_mime_types_def write_valid_mime_types_def
      write_potential_mime_types_def print_def write_file_def apply_writes_def
      cp_def cv_def ci_def ls_def
    by simp
  then have "map fst [(p, cp), (v, cv), (i, ci)] = [p, v, i]
     \<and> (\<forall>w. write_reports p v i env b w
              = w\<lparr>files := apply_writes [(p, cp), (v, cv), (i, ci)] (files w),
                   console := console w @ ls\<rparr>)" by simp
  then show ?thesis by (intro exI)
qed

lemma main_loop_sum_raise:
  "sum_counts (find_file infile w) w = Raise e \<Longrightarrow>
     main_loop ((infile, p, v, i) # rest) t w = (Raise e, w)"
  by simp

lemma main_loop_proc_raise:
  "sum_counts (find_file infile w) w = Return n \<Longrightarrow> find_file infile w = Some f \<Longrightarrow>
   process_counts f p v i w = (Raise e, w') \<Longrightarrow>
     main_loop ((infile, p, v, i) # rest) t w = (Raise e, w')"
  by simp

lemma main_loop_proc_ok:
  "sum_counts (find_file infile w) w = Return n \<Longrightarrow> find_file infile w = Some f \<Longrightarrow>
   process_counts f p v i w = (Return u, w') \<Longrightarrow>
     main_loop ((infile, p, v, i) # rest) t w = main_loop rest (t + n) w'"
  by simp

lemma process_counts_raise:
  "map_of (files w) f = Some rows \<Longrightarrow> process_rows w (tl rows) empty_buckets = Raise e \<Longrightarrow>
     process_counts f p v i w = (Raise e, w)"
  by (simp add: process_counts_def)

lemma process_counts_ok:
  "map_of (files w) f = Some rows \<Longrightarrow> process_rows w (tl rows) empty_buckets = Return b \<Longrightarrow>
     process_counts f p v i w = (Return (), write_reports p v i (extract_env f) b w)"
  by (simp add: process_counts_def)

lemma outs_Cons: "outs ((infile, p, v, i) # rest) = [p, v, i] @ outs rest"
  by (simp add: outs_def)

lemma main_loop_shape:
  assumes "set (map fst envs) \<subseteq> set (map fst files_envs)"
    and "distinct (outs envs)"
    and "\<And>n. n \<in> set (outs envs) \<Longrightarrow> safe n"
  shows "\<exists>r ws ls. fst ` set ws \<subseteq> set (outs envs) \<and> distinct (map fst ws)
     \<and> (\<forall>d. agree (files w) d \<longrightarrow>
            main_loop envs t (w\<lparr>files := d\<rparr>)
              = (r, w\<lparr>files := apply_writes ws d, console := console w @ ls\<rparr>))"
  using assms
proof (induction envs arbitrary: t w)
  case Nil
  have "fst ` set [] \<subseteq> set (outs []) \<and> distinct (map fst [])
     \<and> (\<forall>d. agree (files w) d \<longrightarrow>
            main_loop [] t (w\<lparr>files := d\<rparr>)
              = (Return t, w\<lparr>files := apply_writes [] d, console := console w @ []\<rparr>))"
    by (simp add: apply_writes_Nil)
  then show ?case by (intro exI)
next
  case (Cons env rest)
  obtain infile p v i where env: "env = (infile, p, v, i)" by (cases env)
  from Cons.prems(1) have inf: "infile \<in> set (map fst files_envs)"
    and rest_in: "set (map fst rest) \<subseteq> set (map fst files_envs)" by (simp_all add: env)
  from Cons.prems(2) have dist3: "distinct [p, v, i]" and rest_dist: "distinct (outs rest)"
    and disj: "set [p, v, i] \<inter> set (outs rest) = {}"
    unfolding env outs_Cons distinct_append by blast+
  have safe3: "safe n" if "n \<in> set [p, v, i]" for n
    using Cons.prems(3) [of n] that unfolding env outs_Cons by auto
  have rest_safe: "safe n" if "n \<in> set (outs rest)" for n
    using Cons.prems(3) [of n] that unfolding env outs_Cons by auto
  have stop: "\<exists>r ws ls. fst ` set ws \<subseteq> set (outs (env # rest)) \<and> distinct (map fst ws)
     \<and> (\<forall>d. agree (files w) d \<longrightarrow>
            main_loop (env # rest) t (w\<lparr>files := d\<rparr>)
              = (r, w\<lparr>files := apply_writes ws d, console := console w @ ls\<rparr>))"
    if "\<And>d. agree (files w) d \<Longrightarrow>
          main_loop (env # rest) t (w\<lparr>files := d\<rparr>) = (Raise e, w\<lparr>files := d\<rparr>)" for e
  proof -
    have "fst ` set [] \<subseteq> set (outs (env # rest)) \<and> distinct (map fst [])
     \<and> (\<forall>d. agree (files w) d \<longrightarrow>
            main_loop (env # rest) t (w\<lparr>files := d\<rparr>)
              = (Raise e, w\<lparr>files := apply_writes [] d, console := console w @ []\<rparr>))"
      using that by (simp add: apply_writes_Nil)
    then show ?thesis by (intro exI)
  qed
  have same_find: "find_in infile d = find_in infile (files w)" if "agree (files w) d" for d
    using agree_find [OF that inf] by simp
  show ?case
  proof (cases "find_in infile (files w)")
    case None
    have "main_loop (env # rest) t (w\<lparr>files := d\<rparr>) = (Raise TypeError, w\<lparr>files := d\<rparr>)"
      if "agree (files w) d" for d
      unfolding env
      by (rule main_loop_sum_raise) (simp add: find_file_def same_find [OF that] None sum_counts_def)
    then show ?thesis by (rule stop)
  next
    case (Some f)
    then have "lower f = lower infile" by (rule find_in_lower)
    with inf have fl: "lower f \<in> lower ` set (map fst files_envs)" by blast
    have same_file: "map_of d f = map_of (files w) f" if "agree (files w) d" for d
      using agree_map_of [OF that fl] by simp
    show ?thesis
    proof (cases "map_of (files w) f")
      case None
      have "main_loop (env # rest) t (w\<lparr>files := d\<rparr>) = (Raise FileNotFoundError, w\<lparr>files := d\<rparr>)"
        if "agree (files w) d" for d
        unfolding env
        by (rule main_loop_sum_raise)
           (simp add: find_file_def same_find [OF that] Some same_file [OF that] None sum_counts_def)
      then show ?thesis by (rule stop)
    next
      case rows: (Some rows)
      have sum: "sum_counts (find_file infile (w\<lparr>files := d\<rparr>)) (w\<lparr>files := d\<rparr>)
                   = Return (sum_rows 0 (tl rows))"
        and found: "find_file infile (w\<lparr>files := d\<rparr>) = Some f"
        and content: "map_of (files (w\<lparr>files := d\<rparr>)) f = Some rows"
        if "agree (files w) d" for d
        by (simp_all add: find_file_def same_find [OF that] Some same_file [OF that] rows
            sum_counts_def)
      show ?thesis
      proof (cases "process_rows w (tl rows) empty_buckets")
        case (Raise e)
        have "main_loop (env # rest) t (w\<lparr>files := d\<rparr>) = (Raise e, w\<lparr>files := d\<rparr>)"
          if a: "agree (files w) d" for d
          unfolding env
        proof (rule main_loop_proc_raise [OF sum [OF a] found [OF a]])
          show "process_counts f p v i (w\<lparr>files := d\<rparr>) = (Raise e, w\<lparr>files := d\<rparr>)"
            by (rule process_counts_raise [OF content [OF a]])
               (simp add: process_rows_files Raise)
        qed
        then show ?thesis by (rule stop)
      next
        case (Return b)
        from write_reports_shape [of p v i "extract_env f" b] obtain ws3 ls3 where
          names3: "map fst ws3 = [p, v, i]"
          and wr0: "\<forall>w'. write_reports p v i (extract_env f) b w'
                    = w'\<lparr>files := apply_writes ws3 (files w'), console := console w' @ ls3\<rparr>"
          by (elim exE conjE)
        from wr0 have wr: "write_reports p v i (extract_env f) b w'
                    = w'\<lparr>files := apply_writes ws3 (files w'), console := console w' @ ls3\<rparr>" for w'
          by (rule spec)
        define w1 where "w1 = w\<lparr>files := apply_writes ws3 (files w), console := console w @ ls3\<rparr>"
        have "\<exists>r ws ls. fst ` set ws \<subseteq> set (outs rest) \<and> distinct (map fst ws)
           \<and> (\<forall>d. agree (files w1) d \<longrightarrow>
                 main_loop rest (t + sum_rows 0 (tl rows)) (w1\<lparr>files := d\<rparr>)
                   = (r, w1\<lparr>files := apply_writes ws d, console := console w1 @ ls\<rparr>))"
          by (rule Cons.IH [OF rest_in rest_dist]) (rule rest_safe)
        then obtain r ws ls where
          sub: "fst ` set ws \<subseteq> set (outs rest)" and dist: "distinct (map fst ws)"
          and run0: "\<forall>d'. agree (files w1) d' \<longrightarrow>
                main_loop rest (t + sum_rows 0 (tl rows)) (w1\<lparr>files := d'\<rparr>)
                  = (r, w1\<lparr>files := apply_writes ws d', console := console w1 @ ls\<rparr>)"
          by (elim exE conjE)
        from run0 have run: "main_loop rest (t + sum_rows 0 (tl rows)) (w1\<lparr>files := d'\<rparr>)
                  = (r, w1\<lparr>files := apply_writes ws d', console := console w1 @ ls\<rparr>)"
          if "agree (files w1) d'" for d'
          using that by simp
        have safe_ws3: "safe n" if "n \<in> fst ` set ws3" for n
        proof -
          from that have "n \<in> set (map fst ws3)" by simp
          with names3 safe3 show ?thesis by simp
        qed
        have step: "main_loop (env # rest) t (w\<lparr>files := d\<rparr>)
              = (r, w\<lparr>files := apply_writes (ws3 @ ws) d, console := console w @ (ls3 @ ls)\<rparr>)"
          if a: "agree (files w) d" for d
        proof -
          have pc: "process_counts f p v i (w\<lparr>files := d\<rparr>)
                      = (Return (), w1\<lparr>files := apply_writes ws3 d\<rparr>)"
          proof -
            have "process_counts f p v i (w\<lparr>files := d\<rparr>)
                    = (Return (), write_reports p v i (extract_env f) b (w\<lparr>files := d\<rparr>))"
              by (rule process_counts_ok [OF content [OF a]])
                 (simp add: process_rows_files Return)
            then show ?thesis by (simp add: wr w1_def)
          qed
          have "agree (files w1) (apply_writes ws3 d)"
            unfolding w1_def using agree_apply_writes [OF a safe_ws3] by simp
          from run [OF this]
          have "main_loop rest (t + sum_rows 0 (tl rows)) (w1\<lparr>files := apply_writes ws3 d\<rparr>)
                  = (r, w\<lparr>files := apply_writes (ws3 @ ws) d, console := console w @ (ls3 @ ls)\<rparr>)"
            by (simp add: w1_def apply_writes_append)
          with main_loop_proc_ok [OF sum [OF a] found [OF a] pc, of rest t]
          show ?thesis by (simp add: env)
        qed
        have "fst ` set (ws3 @ ws) \<subseteq> set (outs (env # rest))"
        proof -
          have "fst ` set ws3 = set [p, v, i]" using names3 by (metis set_map)
          with sub show ?thesis unfolding env outs_Cons by auto
        qed
        moreover have "distinct (map fst (ws3 @ ws))"
        proof -
          have "set (map fst ws) \<subseteq> set (outs rest)" using sub by simp
          with disj names3 have "set (map fst ws3) \<inter> set (map fst ws) = {}" by auto
          with dist dist3 names3 show ?thesis by simp
        qed
        ultimately have "fst ` set (ws3 @ ws) \<subseteq> set (outs (env # rest))
           \<and> distinct (map fst (ws3 @ ws))
           \<and> (\<forall>d. agree (files w) d \<longrightarrow>
            main_loop (env # rest) t (w\<lparr>files := d\<rparr>)
              = (r, w\<lparr>files := apply_writes (ws3 @ ws) d, console := console w @ (ls3 @ ls)\<rparr>))"
          using step by blast
        then show ?thesis by (intro exI)
      qed
    qed
  qed
qed

lemma files_envs_outs: "distinct (outs files_envs)"
  by (simp add: outs_def files_envs_def)

lemma files_envs_safe: "n \<in> set (outs files_envs) \<Longrightarrow> safe n"
  unfolding safe_def outs_def files_envs_def
  by (auto simp: lower_def lower_char_def)

lemma initial_world_files: "initial_world d = (initial_world dir)\<lparr>files := d\<rparr>"
  by (simp add: initial_world_def)

text \<open>
  Claim C9. Running the script again in the directory the first run left (same mapping
  file, same count files, the reports of the first run now present) gives the same
  outcome, prints the same lines and leaves the directory, and so every report, as the
  first run left it.
\<close>

theorem run_twice_same: "run (files (snd (run dir))) = run dir"
proof -
  define w0 where "w0 = initial_world dir"
  define rl where "rl = fst (load_mime_mapping ''mimeTypes.csv'' w0)"
  define wl where "wl = snd (load_mime_mapping ''mimeTypes.csv'' w0)"
  have load: "load_mime_mapping ''mimeTypes.csv'' w0 = (rl, wl)"
    by (simp add: rl_def wl_def)
  have fw0: "files w0 = dir" by (simp add: w0_def initial_world_def)
  have fwl: "files wl = dir"
    unfolding wl_def using files_load_mime_mapping [of "''mimeTypes.csv''" w0] fw0 by simp
  have "\<exists>r ws ls. fst ` set ws \<subseteq> set (outs files_envs) \<and> distinct (map fst ws)
     \<and> (\<forall>d. agree (files wl) d \<longrightarrow>
            main_loop files_envs 0 (wl\<lparr>files := d\<rparr>)
              = (r, wl\<lparr>files := apply_writes ws d, console := console wl @ ls\<rparr>))"
    by (rule main_loop_shape [OF subset_refl files_envs_outs]) (rule files_envs_safe)
  then obtain r ws ls where sub: "fst ` set ws \<subseteq> set (outs files_envs)"
    and dist: "distinct (map fst ws)"
    and shape0: "\<forall>d. agree (files wl) d \<longrightarrow>
            main_loop files_envs 0 (wl\<lparr>files := d\<rparr>)
              = (r, wl\<lparr>files := apply_writes ws d, console := console wl @ ls\<rparr>)"
    by (elim exE conjE)
  have shape: "main_loop files_envs 0 (wl\<lparr>files := d\<rparr>)
              = (r, wl\<lparr>files := apply_writes ws d, console := console wl @ ls\<rparr>)"
    if "agree dir d" for d
    using shape0 that fwl by simp
  define g where "g = apply_writes ws dir"
  have safe_ws: "safe n" if "n \<in> fst ` set ws" for n
    using that sub files_envs_safe by blast
  have ag: "agree dir g"
    unfolding g_def by (rule agree_apply_writes_left) (rule safe_ws)
  have gg: "apply_writes ws g = g"
    unfolding g_def by (rule apply_writes_twice [OF dist])
  have wl_self: "wl\<lparr>files := dir\<rparr> = wl" using fwl by simp
  have loop1: "main_loop files_envs 0 wl = (r, wl\<lparr>files := g, console := console wl @ ls\<rparr>)"
    using shape [OF agree_refl] wl_self by (simp add: g_def)
  have loop2: "main_loop files_envs 0 (wl\<lparr>files := g\<rparr>)
                 = (r, wl\<lparr>files := g, console := console wl @ ls\<rparr>)"
    using shape [OF ag] gg by simp
  have load2: "load_mime_mapping ''mimeTypes.csv'' (w0\<lparr>files := g\<rparr>) = (rl, wl\<lparr>files := g\<rparr>)"
  proof -
    have "map_of g ''mimeTypes.csv'' = map_of (files w0) ''mimeTypes.csv''"
      using agree_mapping [OF ag] fw0 by simp
    from load_mime_mapping_files [OF this] show ?thesis by (simp add: rl_def wl_def)
  qed
  have init2: "initial_world g = w0\<lparr>files := g\<rparr>"
    unfolding w0_def by (rule initial_world_files)
  show ?thesis
  proof (cases rl)
    case (Raise e)
    with load have "run dir = (Raise e, wl)" by (simp add: run_def main_def w0_def)
    moreover from this fwl have "files (snd (run dir)) = dir" by simp
    ultimately show ?thesis by simp
  next
    case (Return u)
    show ?thesis
    proof (cases r)
      case (Raise e)
      have first: "run dir = (Raise e, wl\<lparr>files := g, console := console wl @ ls\<rparr>)"
        using load Return loop1 Raise by (simp add: run_def main_def w0_def [symmetric])
      then have "files (snd (run dir)) = g" by simp
      moreover have "run g = (Raise e, wl\<lparr>files := g, console := console wl @ ls\<rparr>)"
        using load2 Return loop2 Raise by (simp add: run_def main_def init2)
      ultimately show ?thesis using first by simp
    next
      case tot: (Return total_count)
      have first: "run dir = (Return (),
          print (''Total count across all files: '' @ str_int total_count @ [newline])
            (wl\<lparr>files := g, console := console wl @ ls\<rparr>))"
        using load Return loop1 tot by (simp add: run_def main_def w0_def [symmetric])
      then have "files (snd (run dir)) = g" by (simp add: print_def)
      moreover have "run g = (Return (),
          print (''Total count across all files: '' @ str_int total_count @ [newline])
            (wl\<lparr>files := g, console := console wl @ ls\<rparr>))"
        using load2 Return loop2 tot by (simp add: run_def main_def init2)
      ultimately show ?thesis using first by simp
    qed
  qed
qed

end
